theory Spec2Isabelle
  imports Main "HOL-Library.Sublist" "HOL-Library.AList" "HOL-Library.Multiset"
    "HOL-Library.Char_ord" "HOL-Library.List_Lexorder" "HOL-Library.Product_Lexorder"
begin

section \<open>The dependency-aware code extractor of hand\_return.py\<close>

text \<open>
  The development embeds \<^verbatim>\<open>src/hand_return.py\<close>: the import parser, the module
  resolver, the symbol and global-scope extractors, the two worklist traversals
  (\<^verbatim>\<open>discover_files\<close> and the extraction loop of \<^verbatim>\<open>extract_used_code\<close>), the tree
  builder and its two renderers, and the writer of the output artifact.

  Text is a \<open>string\<close> of bytes (UTF-8). Python's \<^verbatim>\<open>ast.parse\<close> is not part of the
  repository: a regular file carries its raw content together with the syntax tree the
  parser returns for it (\<open>None\<close> when the parser raises \<^verbatim>\<open>SyntaxError\<close>).
\<close>

subsection \<open>Errors\<close>

datatype error =
    FileNotFoundError      \<comment> \<open>\<^verbatim>\<open>open\<close> of a path that does not exist\<close>
  | OSError                \<comment> \<open>\<^verbatim>\<open>open\<close> of a path that exists but cannot be read (a directory)\<close>
  | ValueError             \<comment> \<open>\<^verbatim>\<open>Path.relative_to\<close> of a path outside the base\<close>
  | UnboundLocalError      \<comment> \<open>\<^verbatim>\<open>child_prefix\<close> read before assignment in \<^verbatim>\<open>print_tree\<close>\<close>

subsection \<open>Paths\<close>

text \<open>
  A \<^verbatim>\<open>pathlib.Path\<close> is the list of its \<^verbatim>\<open>parts\<close> (POSIX flavour). An absolute path
  has its root as first part, \<open>''/''\<close> or \<open>''//''\<close>; no other part holds a slash, is
  empty or is \<open>''.''\<close>; \<^verbatim>\<open>Path('.')\<close> has no parts. Two paths are equal when their
  parts are, as in pathlib: a file is known to the code by the path that names it.
\<close>

type_synonym path = "string list"

definition is_root :: "string \<Rightarrow> bool" where
  "is_root part = (part = ''/'' \<or> part = ''//'')"

definition is_absolute :: "path \<Rightarrow> bool" where
  "is_absolute p = (case p of [] \<Rightarrow> False | x # xs \<Rightarrow> is_root x)"

fun join :: "string \<Rightarrow> string list \<Rightarrow> string" where
  "join sep [] = []"
| "join sep [x] = x"
| "join sep (x # y # ys) = x @ sep @ join sep (y # ys)"

definition path_str :: "path \<Rightarrow> string" where
  "path_str p =
     (case p of
        [] \<Rightarrow> ''.''
      | x # xs \<Rightarrow> if is_root x then x @ join ''/'' xs else join ''/'' (x # xs))"

fun split_on :: "char \<Rightarrow> string \<Rightarrow> string list" where
  "split_on c [] = [[]]"
| "split_on c (x # xs) =
     (if x = c then [] # split_on c xs
      else (case split_on c xs of
              [] \<Rightarrow> [[x]]
            | w # ws \<Rightarrow> (x # w) # ws))"

text \<open>
  The parts of a relative path string: pathlib drops empty components and \<open>''.''\<close>.
  Module names come from the syntax tree, so the string never starts with a slash.
\<close>

definition rel_parts :: "string \<Rightarrow> path" where
  "rel_parts s = filter (\<lambda>w. w \<noteq> [] \<and> w \<noteq> ''.'') (split_on CHR ''/'' s)"

definition path_join :: "path \<Rightarrow> string \<Rightarrow> path" where
  "path_join base s = base @ rel_parts s"

text \<open>
  \<^verbatim>\<open>Path.relative_to\<close>: the parts after those of the base. Against the base
  \<^verbatim>\<open>Path('.')\<close>, which has no parts, an absolute path raises \<^verbatim>\<open>ValueError\<close> and a
  relative path is returned as it is.
\<close>

definition relative_to :: "path \<Rightarrow> path \<Rightarrow> error + path" where
  "relative_to p base =
     (if base = [] then (if is_absolute p then Inl ValueError else Inr p)
      else if prefix base p then Inr (drop (length base) p)
      else Inl ValueError)"

definition parent :: "path \<Rightarrow> path" where
  "parent p = (if is_absolute p \<and> length p = 1 then p else butlast p)"

definition path_name :: "path \<Rightarrow> string" where
  "path_name p = (if p = [] \<or> (is_absolute p \<and> length p = 1) then [] else last p)"

subsection \<open>Syntax trees and the file system\<close>

text \<open>
  The nodes the code inspects, with \<^verbatim>\<open>lineno\<close> and \<^verbatim>\<open>end_lineno\<close>; every other node
  is \<open>Other\<close> with its child nodes. Leaf children that no test matches (aliases,
  expressions) are left out: the order of the remaining nodes in \<^verbatim>\<open>ast.walk\<close> is
  the same without them. \<^verbatim>\<open>ast.parse\<close> numbers lines from 1.
\<close>

datatype node =
    Import nat "nat option" "string list"
  | ImportFrom nat "nat option" "string option" "string list"
  | FunctionDef nat "nat option" string "node list"
  | ClassDef nat "nat option" string "node list"
  | Assign nat "nat option"
  | Other "node list"

fun iter_child_nodes :: "node \<Rightarrow> node list" where
  "iter_child_nodes (FunctionDef l e n body) = body"
| "iter_child_nodes (ClassDef l e n body) = body"
| "iter_child_nodes (Other body) = body"
| "iter_child_nodes _ = []"

text \<open>\<^verbatim>\<open>ast.walk\<close>: a queue of nodes, each popped from the left, its children appended.\<close>

function walk :: "node list \<Rightarrow> node list" where
  "walk [] = []"
| "walk (n # todo) = n # walk (todo @ iter_child_nodes n)"
  by pat_completeness auto
termination
proof (relation "measure (\<lambda>todo. sum_list (map (\<lambda>n. Suc (size n)) todo))")
  show "wf (measure (\<lambda>todo. sum_list (map (\<lambda>n. Suc (size n)) todo)))" by simp
next
  fix n :: node and todo :: "node list"
  have "sum_list (map (\<lambda>n. Suc (size n)) cs) \<le> size_list size cs" for cs :: "node list"
    by (induction cs) simp_all
  then have "sum_list (map (\<lambda>n. Suc (size n)) (iter_child_nodes n)) < Suc (size n)"
    by (cases n) (simp_all add: less_Suc_eq_le le_SucI)
  then show "(todo @ iter_child_nodes n, n # todo)
      \<in> measure (\<lambda>todo. sum_list (map (\<lambda>n. Suc (size n)) todo))"
    by simp
qed

datatype fnode =
    RegularFile string "node list option"
      \<comment> \<open>raw content; the module body \<^verbatim>\<open>ast.parse\<close> returns, \<open>None\<close> on a syntax error\<close>
  | Unreadable
      \<comment> \<open>\<^verbatim>\<open>exists()\<close> holds and \<^verbatim>\<open>open\<close> raises\<close>

type_synonym filesystem = "(path \<times> fnode) list"

definition exists :: "filesystem \<Rightarrow> path \<Rightarrow> bool" where
  "exists fs p = (map_of fs p \<noteq> None)"

definition read_file :: "filesystem \<Rightarrow> path \<Rightarrow> error + string" where
  "read_file fs p =
     (case map_of fs p of
        None \<Rightarrow> Inl FileNotFoundError
      | Some Unreadable \<Rightarrow> Inl OSError
      | Some (RegularFile content t) \<Rightarrow> Inr content)"

text \<open>Read and parse: \<open>None\<close> stands for any exception of \<^verbatim>\<open>open\<close> or \<^verbatim>\<open>ast.parse\<close>.\<close>

definition read_and_parse :: "filesystem \<Rightarrow> path \<Rightarrow> (string \<times> node list) option" where
  "read_and_parse fs p =
     (case map_of fs p of
        Some (RegularFile content (Some body)) \<Rightarrow> Some (content, body)
      | _ \<Rightarrow> None)"

text \<open>
  Two facts of a file system that the association list does not enforce by itself: a path
  is a regular file, and nothing exists below a regular file.
\<close>

definition is_regular :: "filesystem \<Rightarrow> path \<Rightarrow> bool" where
  "is_regular fs p = (case map_of fs p of Some (RegularFile content t) \<Rightarrow> True | _ \<Rightarrow> False)"

definition fs_consistent :: "filesystem \<Rightarrow> bool" where
  "fs_consistent fs =
     (\<forall>p \<in> fst ` set fs. \<forall>q \<in> fst ` set fs. is_regular fs p \<longrightarrow> \<not> strict_prefix p q)"

subsection \<open>Import parser\<close>

text \<open>
  The dictionary \<^verbatim>\<open>imports\<close> keeps insertion order, so it is an association list;
  \<open>AList.update\<close> replaces the value of a present key in place and appends a new key.
\<close>

type_synonym import_map = "(string \<times> string list) list"

definition import_from :: "string \<Rightarrow> string list \<Rightarrow> import_map \<Rightarrow> import_map" where
  "import_from module names imps =
     (let imps1 = (if map_of imps module = None
                   then AList.update module [] imps else imps)
      in case map_of imps1 module of
           None \<Rightarrow> imps1
         | Some old \<Rightarrow> AList.update module (old @ names) imps1)"

fun parse_node :: "node \<Rightarrow> import_map \<Rightarrow> import_map" where
  "parse_node (ImportFrom l e module names) imps =
     (case module of
        None \<Rightarrow> imps
      | Some m \<Rightarrow> if m = [] then imps else import_from m names imps)"
| "parse_node (Import l e names) imps =
     fold (\<lambda>alias_name acc. AList.update alias_name [''*''] acc) names imps"
| "parse_node _ imps = imps"

definition parse_imports_with_names :: "filesystem \<Rightarrow> path \<Rightarrow> import_map" where
  "parse_imports_with_names fs file_path =
     (case read_and_parse fs file_path of
        None \<Rightarrow> []
      | Some (content, body) \<Rightarrow> fold parse_node (walk [Other body]) [])"

subsection \<open>Module resolver\<close>

definition replace_dots :: "string \<Rightarrow> string" where
  "replace_dots import_name = map (\<lambda>c. if c = CHR ''.'' then CHR ''/'' else c) import_name"

definition resolve_import_to_file :: "filesystem \<Rightarrow> string \<Rightarrow> path \<Rightarrow> path option" where
  "resolve_import_to_file fs import_name project_dir =
     (let p = replace_dots import_name;
          py_file = path_join project_dir (p @ ''.py'')
      in if exists fs py_file then Some py_file
         else (let init_file = path_join (path_join project_dir p) ''__init__.py''
               in if exists fs init_file then Some init_file else None))"

subsection \<open>Text lines\<close>

definition nl :: string where
  "nl = [CHR 0x0A]"

text \<open>
  \<^verbatim>\<open>str.splitlines\<close>: the length of the line boundary a string starts with, 0 when it
  starts with none. The boundaries are LF, CR, CR LF, VT, FF, FS, GS, RS, and in UTF-8
  NEL (C2 85), LS (E2 80 A8) and PS (E2 80 A9).
\<close>

definition line_break :: "string \<Rightarrow> nat" where
  "line_break s =
     (if prefix [CHR 0x0D, CHR 0x0A] s then 2
      else if s \<noteq> [] \<and> hd s \<in> set [CHR 0x0A, CHR 0x0D, CHR 0x0B, CHR 0x0C,
                                       CHR 0x1C, CHR 0x1D, CHR 0x1E] then 1
      else if prefix [CHR 0xC2, CHR 0x85] s then 2
      else if prefix [CHR 0xE2, CHR 0x80, CHR 0xA8] s then 3
      else if prefix [CHR 0xE2, CHR 0x80, CHR 0xA9] s then 3
      else 0)"

fun take_line :: "string \<Rightarrow> string \<times> string" where
  "take_line [] = ([], [])"
| "take_line (c # cs) =
     (if 0 < line_break (c # cs) then ([], drop (line_break (c # cs)) (c # cs))
      else (case take_line cs of (l, r) \<Rightarrow> (c # l, r)))"

lemma take_line_shorter: "s \<noteq> [] \<Longrightarrow> length (snd (take_line s)) < length s"
proof (induction s)
  case Nil
  then show ?case by simp
next
  case (Cons c cs)
  show ?case
  proof (cases "0 < line_break (c # cs)")
    case True
    then show ?thesis by simp
  next
    case False
    then show ?thesis
      using Cons.IH by (cases cs) (auto split: prod.splits)
  qed
qed

function splitlines :: "string \<Rightarrow> string list" where
  "splitlines s = (if s = [] then [] else fst (take_line s) # splitlines (snd (take_line s)))"
  by pat_completeness auto
termination
  by (relation "measure length") (simp_all add: take_line_shorter)

declare splitlines.simps [simp del]

text \<open>\<^verbatim>\<open>lines[start:end]\<close> for indices that are not negative.\<close>

definition slice :: "'a list \<Rightarrow> nat \<Rightarrow> nat \<Rightarrow> 'a list" where
  "slice xs start stop = drop start (take stop xs)"

text \<open>
  The span of a node: \<^verbatim>\<open>start = node.lineno - 1\<close> and
  \<^verbatim>\<open>end = node.end_lineno if node.end_lineno else start + 1\<close>.
\<close>

definition span :: "nat \<Rightarrow> nat option \<Rightarrow> nat \<times> nat" where
  "span lineno end_lineno =
     (let start = lineno - 1
      in (start, (case end_lineno of
                    None \<Rightarrow> start + 1
                  | Some e \<Rightarrow> if e = 0 then start + 1 else e)))"

subsection \<open>Symbol extractor and global-scope extractor\<close>

fun is_def :: "string \<Rightarrow> node \<Rightarrow> bool" where
  "is_def name (FunctionDef l e n body) = (n = name)"
| "is_def name (ClassDef l e n body) = (n = name)"
| "is_def name _ = False"

fun node_span :: "node \<Rightarrow> nat \<times> nat" where
  "node_span (Import l e names) = span l e"
| "node_span (ImportFrom l e m names) = span l e"
| "node_span (FunctionDef l e n body) = span l e"
| "node_span (ClassDef l e n body) = span l e"
| "node_span (Assign l e) = span l e"
| "node_span (Other body) = (0, 0)"

definition extract_function_or_class :: "filesystem \<Rightarrow> path \<Rightarrow> string \<Rightarrow> string option" where
  "extract_function_or_class fs file_path name =
     (case read_and_parse fs file_path of
        None \<Rightarrow> None
      | Some (content, body) \<Rightarrow>
          (case find (is_def name) (walk [Other body]) of
             None \<Rightarrow> None
           | Some n \<Rightarrow>
               Some (join nl (slice (splitlines content) (fst (node_span n)) (snd (node_span n))))))"

fun is_global :: "node \<Rightarrow> bool" where
  "is_global (Import l e names) = True"
| "is_global (ImportFrom l e m names) = True"
| "is_global (Assign l e) = True"
| "is_global _ = False"

definition get_global_variables :: "filesystem \<Rightarrow> path \<Rightarrow> string" where
  "get_global_variables fs file_path =
     (case read_and_parse fs file_path of
        None \<Rightarrow> []
      | Some (content, body) \<Rightarrow>
          join nl (fold (\<lambda>n globals_code.
                           if is_global n
                           then globals_code @ slice (splitlines content) (fst (node_span n)) (snd (node_span n))
                           else globals_code) body []))"

subsection \<open>The worklist: exclusion, skip list, enqueueing\<close>

definition should_exclude :: "string list \<Rightarrow> path \<Rightarrow> bool" where
  "should_exclude exclude_patterns current_file =
     list_ex (\<lambda>pattern. sublist pattern (path_str current_file)) exclude_patterns"

definition skip_list :: "string list" where
  "skip_list = [''os'', ''sys'', ''re'', ''cv2'', ''uuid'', ''numpy'', ''tensorflow'',
                ''PIL'', ''flask'', ''urllib'', ''json'', ''time'', ''gc'', ''io'',
                ''paddleocr'', ''ultralytics'', ''torch'', ''requests'', ''certifi'', ''urllib3'']"

type_synonym request = "path \<times> string list"

definition enqueue_import ::
  "filesystem \<Rightarrow> path \<Rightarrow> path set \<Rightarrow> string \<times> string list \<Rightarrow> request list \<Rightarrow> request list" where
  "enqueue_import fs project_dir processed imp files_to_process =
     (case imp of (module, names) \<Rightarrow>
        if module \<in> set skip_list then files_to_process
        else (case resolve_import_to_file fs module project_dir of
                None \<Rightarrow> files_to_process
              | Some file_path \<Rightarrow>
                  if file_path \<notin> processed then files_to_process @ [(file_path, names)]
                  else files_to_process))"

definition enqueue_imports ::
  "filesystem \<Rightarrow> path \<Rightarrow> path set \<Rightarrow> import_map \<Rightarrow> request list \<Rightarrow> request list" where
  "enqueue_imports fs project_dir processed imps files_to_process =
     fold (enqueue_import fs project_dir processed) imps files_to_process"

lemma resolve_exists:
  "resolve_import_to_file fs m project_dir = Some p \<Longrightarrow> p \<in> fst ` set fs"
  by (auto simp: resolve_import_to_file_def exists_def Let_def map_of_eq_None_iff
           split: if_splits)

lemma enqueue_import_files:
  "fst ` set (enqueue_import fs pd processed imp q) \<subseteq> fst ` set fs \<union> fst ` set q"
  by (cases imp) (auto simp: enqueue_import_def dest: resolve_exists split: option.splits)

lemma enqueue_imports_files:
  "fst ` set (enqueue_imports fs pd processed imps q) \<subseteq> fst ` set fs \<union> fst ` set q"
  unfolding enqueue_imports_def
proof (induction imps arbitrary: q)
  case Nil
  then show ?case by simp
next
  case (Cons imp imps)
  show ?case
    using Cons.IH [of "enqueue_import fs pd processed imp q"]
      enqueue_import_files [of fs pd processed imp q]
    by auto
qed

text \<open>
  Every step of a traversal either drops a queue entry or marks as processed a file of
  the finite universe of existing and queued files.
\<close>

definition pending :: "filesystem \<Rightarrow> request list \<Rightarrow> path set \<Rightarrow> nat" where
  "pending fs q processed = card ((fst ` set fs \<union> fst ` set q) - processed)"

lemma pending_skip: "pending fs rest processed \<le> pending fs ((cur, names) # rest) processed"
  unfolding pending_def by (rule card_mono) auto

lemma pending_step:
  assumes "cur \<notin> processed"
    and "fst ` set q' \<subseteq> fst ` set fs \<union> fst ` set rest"
  shows "pending fs q' (insert cur processed) < pending fs ((cur, names) # rest) processed"
  unfolding pending_def
proof (rule psubset_card_mono)
  show "finite ((fst ` set fs \<union> fst ` set ((cur, names) # rest)) - processed)" by simp
  show "(fst ` set fs \<union> fst ` set q') - insert cur processed
        \<subset> (fst ` set fs \<union> fst ` set ((cur, names) # rest)) - processed"
    using assms by auto
qed

subsection \<open>First pass: discover\_files\<close>

function discover_loop ::
  "filesystem \<Rightarrow> path \<Rightarrow> string list \<Rightarrow> request list \<Rightarrow> path set \<Rightarrow> path list \<Rightarrow> path list" where
  "discover_loop fs project_dir exclude_patterns [] processed discovered_files = discovered_files"
| "discover_loop fs project_dir exclude_patterns ((current_file, names_to_extract) # rest)
      processed discovered_files =
     (if current_file \<in> processed
      then discover_loop fs project_dir exclude_patterns rest processed discovered_files
      else if should_exclude exclude_patterns current_file
      then discover_loop fs project_dir exclude_patterns rest
             (insert current_file processed) discovered_files
      else discover_loop fs project_dir exclude_patterns
             (enqueue_imports fs project_dir (insert current_file processed)
                (parse_imports_with_names fs current_file) rest)
             (insert current_file processed) (discovered_files @ [current_file]))"
  by pat_completeness auto
termination
proof (relation "measures [\<lambda>(fs, pd, ex, q, processed, d). pending fs q processed,
                           \<lambda>(fs, pd, ex, q, processed, d). length q]")
  show "wf (measures [\<lambda>(fs, pd, ex, q, processed, d). pending fs q processed,
                      \<lambda>(fs, pd, ex, q, processed, d). length q])"
    by simp
next
  fix fs :: filesystem and pd :: path and ex :: "string list" and cur :: path
    and names :: "string list" and rest :: "request list" and processed :: "path set"
    and d :: "path list"
  show "((fs, pd, ex, rest, processed, d), (fs, pd, ex, (cur, names) # rest, processed, d))
        \<in> measures [\<lambda>(fs, pd, ex, q, processed, d). pending fs q processed,
                     \<lambda>(fs, pd, ex, q, processed, d). length q]"
    using pending_skip [of fs rest processed cur names] by auto
next
  fix fs :: filesystem and pd :: path and ex :: "string list" and cur :: path
    and names :: "string list" and rest :: "request list" and processed :: "path set"
    and d :: "path list"
  assume "cur \<notin> processed"
  then show "((fs, pd, ex, rest, insert cur processed, d),
              (fs, pd, ex, (cur, names) # rest, processed, d))
        \<in> measures [\<lambda>(fs, pd, ex, q, processed, d). pending fs q processed,
                     \<lambda>(fs, pd, ex, q, processed, d). length q]"
    using pending_step [of cur processed rest fs rest names] by auto
next
  fix fs :: filesystem and pd :: path and ex :: "string list" and cur :: path
    and names :: "string list" and rest :: "request list" and processed :: "path set"
    and d :: "path list"
  assume "cur \<notin> processed"
  then show "((fs, pd, ex,
               enqueue_imports fs pd (insert cur processed) (parse_imports_with_names fs cur) rest,
               insert cur processed, d @ [cur]),
              (fs, pd, ex, (cur, names) # rest, processed, d))
        \<in> measures [\<lambda>(fs, pd, ex, q, processed, d). pending fs q processed,
                     \<lambda>(fs, pd, ex, q, processed, d). length q]"
    using pending_step [OF _ enqueue_imports_files, of cur processed fs pd _ _ rest names]
    by auto
qed

definition discover_files :: "filesystem \<Rightarrow> path \<Rightarrow> path \<Rightarrow> string list \<Rightarrow> path list" where
  "discover_files fs project_dir entry_file exclude_patterns =
     discover_loop fs project_dir exclude_patterns [(entry_file, [''*''])] {} []"

subsection \<open>Second pass: the extraction loop of extract\_used\_code\<close>

definition extract_names ::
  "filesystem \<Rightarrow> path \<Rightarrow> string list \<Rightarrow> string list \<Rightarrow> string list" where
  "extract_names fs current_file names_to_extract file_code_parts =
     fold (\<lambda>name parts.
             if name = ''*'' then parts
             else (case extract_function_or_class fs current_file name of
                     None \<Rightarrow> parts
                   | Some code \<Rightarrow> if code = [] then parts else parts @ [nl @ code]))
          names_to_extract file_code_parts"

definition extract_file :: "filesystem \<Rightarrow> path \<Rightarrow> string list \<Rightarrow> error + string" where
  "extract_file fs current_file names_to_extract =
     (let globals_code = get_global_variables fs current_file;
          file_code_parts = (if globals_code \<noteq> [] then [globals_code] else [])
      in if ''*'' \<in> set names_to_extract then read_file fs current_file
         else Inr (join (nl @ nl)
                     (extract_names fs current_file names_to_extract file_code_parts)))"

text \<open>
  The dictionary \<^verbatim>\<open>extracted_code\<close> keeps insertion order. The two \<^verbatim>\<open>print\<close> calls
  that format \<^verbatim>\<open>current_file.relative_to(project_dir)\<close> raise \<^verbatim>\<open>ValueError\<close> for a
  file outside the project directory.
\<close>

type_synonym extracted = "(path \<times> string) list"

function extract_loop ::
  "filesystem \<Rightarrow> path \<Rightarrow> string list \<Rightarrow> request list \<Rightarrow> path set \<Rightarrow> extracted
     \<Rightarrow> error + extracted" where
  "extract_loop fs project_dir exclude_patterns [] processed extracted_code = Inr extracted_code"
| "extract_loop fs project_dir exclude_patterns ((current_file, names_to_extract) # rest)
      processed extracted_code =
     (if current_file \<in> processed
      then extract_loop fs project_dir exclude_patterns rest processed extracted_code
      else if should_exclude exclude_patterns current_file
      then (case relative_to current_file project_dir of
              Inl e \<Rightarrow> Inl e
            | Inr rel \<Rightarrow>
                extract_loop fs project_dir exclude_patterns rest
                  (insert current_file processed) extracted_code)
      else (case relative_to current_file project_dir of
              Inl e \<Rightarrow> Inl e
            | Inr rel \<Rightarrow>
                (case extract_file fs current_file names_to_extract of
                   Inl e \<Rightarrow> Inl e
                 | Inr code \<Rightarrow>
                     extract_loop fs project_dir exclude_patterns
                       (enqueue_imports fs project_dir (insert current_file processed)
                          (parse_imports_with_names fs current_file) rest)
                       (insert current_file processed)
                       (AList.update current_file code extracted_code))))"
  by pat_completeness auto
termination
proof (relation "measures [\<lambda>(fs, pd, ex, q, processed, d). pending fs q processed,
                           \<lambda>(fs, pd, ex, q, processed, d). length q]")
  show "wf (measures [\<lambda>(fs, pd, ex, q, processed, d). pending fs q processed,
                      \<lambda>(fs, pd, ex, q, processed, d). length q])"
    by simp
next
  fix fs :: filesystem and pd :: path and ex :: "string list" and cur :: path
    and names :: "string list" and rest :: "request list" and processed :: "path set"
    and d :: extracted
  show "((fs, pd, ex, rest, processed, d), (fs, pd, ex, (cur, names) # rest, processed, d))
        \<in> measures [\<lambda>(fs, pd, ex, q, processed, d). pending fs q processed,
                     \<lambda>(fs, pd, ex, q, processed, d). length q]"
    using pending_skip [of fs rest processed cur names] by auto
next
  fix fs :: filesystem and pd :: path and ex :: "string list" and cur :: path
    and names :: "string list" and rest :: "request list" and processed :: "path set"
    and d :: extracted
  assume "cur \<notin> processed"
  then show "((fs, pd, ex, rest, insert cur processed, d),
              (fs, pd, ex, (cur, names) # rest, processed, d))
        \<in> measures [\<lambda>(fs, pd, ex, q, processed, d). pending fs q processed,
                     \<lambda>(fs, pd, ex, q, processed, d). length q]"
    using pending_step [of cur processed rest fs rest names] by auto
next
  fix fs :: filesystem and pd :: path and ex :: "string list" and cur :: path
    and names :: "string list" and rest :: "request list" and processed :: "path set"
    and d :: extracted and code :: string
  assume "cur \<notin> processed"
  then show "((fs, pd, ex,
               enqueue_imports fs pd (insert cur processed) (parse_imports_with_names fs cur) rest,
               insert cur processed, AList.update cur code d),
              (fs, pd, ex, (cur, names) # rest, processed, d))
        \<in> measures [\<lambda>(fs, pd, ex, q, processed, d). pending fs q processed,
                     \<lambda>(fs, pd, ex, q, processed, d). length q]"
    using pending_step [OF _ enqueue_imports_files, of cur processed fs pd _ _ rest names]
    by auto
qed

definition extraction_phase ::
  "filesystem \<Rightarrow> path \<Rightarrow> path \<Rightarrow> string list \<Rightarrow> error + extracted" where
  "extraction_phase fs project_dir entry_file exclude_patterns =
     extract_loop fs project_dir exclude_patterns [(entry_file, [''*''])] {} []"

subsection \<open>Tree builder and tree renderers\<close>

text \<open>
  A node of the nested dictionary: \<^verbatim>\<open>{'_is_file': ..., '_children': {...}}\<close>. Each
  dictionary keeps insertion order, which the truncated listing of \<^verbatim>\<open>print_tree\<close>
  shows.
\<close>

datatype tnode = TNode (is_file: bool) (children: "(string \<times> tnode) list")

type_synonym tree = "(string \<times> tnode) list"

text \<open>
  The inner loop of \<^verbatim>\<open>build_tree_structure\<close> for one file: a missing part is added
  at the end of the current dictionary, marked as a file when it is the last part, and the
  walk goes on in its children.
\<close>

fun insert_parts :: "tree \<Rightarrow> string list \<Rightarrow> tree" where
  "insert_parts current [] = current"
| "insert_parts current (part # rest) =
     (case map_of current part of
        None \<Rightarrow> current @ [(part, TNode (rest = []) (insert_parts [] rest))]
      | Some data \<Rightarrow>
          AList.update part (TNode (is_file data) (insert_parts (children data) rest)) current)"

fun build_tree_loop :: "path list \<Rightarrow> path \<Rightarrow> tree \<Rightarrow> error + tree" where
  "build_tree_loop [] project_dir tree = Inr tree"
| "build_tree_loop (file_path # files) project_dir tree =
     (case relative_to file_path project_dir of
        Inl e \<Rightarrow> Inl e
      | Inr parts \<Rightarrow> build_tree_loop files project_dir (insert_parts tree parts))"

definition build_tree_structure :: "path list \<Rightarrow> path \<Rightarrow> error + tree" where
  "build_tree_structure files project_dir = build_tree_loop files project_dir []"

text \<open>
  A rendered line keeps its fields apart: the prefix, the connector, whether the entry is
  a file, and its name; \<open>Ellipsis\<close> and \<open>UpTo\<close> are the two lines that close a
  truncated directory. The box-drawing characters and the icons are UTF-8 bytes.
\<close>

datatype tree_line =
    Entry string string bool string
  | Ellipsis string
  | UpTo string nat

definition last_connector :: string where
  "last_connector = [CHR 0xE2, CHR 0x94, CHR 0x94, CHR 0xE2, CHR 0x94, CHR 0x80,
                     CHR 0xE2, CHR 0x94, CHR 0x80, CHR '' '']"

definition mid_connector :: string where
  "mid_connector = [CHR 0xE2, CHR 0x94, CHR 0x9C, CHR 0xE2, CHR 0x94, CHR 0x80,
                    CHR 0xE2, CHR 0x94, CHR 0x80, CHR '' '']"

definition last_extension :: string where
  "last_extension = ''    ''"

definition mid_extension :: string where
  "mid_extension = [CHR 0xE2, CHR 0x94, CHR 0x82] @ ''   ''"

text \<open>
  \<^verbatim>\<open>sorted(tree.items(), key=lambda x: (not x[1]['_is_file'], x[0]))\<close>: tuples compare
  lexicographically, \<open>False < True\<close>, and strings compare by code point, which is the
  byte order of UTF-8.
\<close>

definition sort_items :: "tree \<Rightarrow> tree" where
  "sort_items tree_dict = sort_key (\<lambda>x. (\<not> is_file (snd x), fst x)) tree_dict"

fun tsize :: "tnode \<Rightarrow> nat" where
  "tsize (TNode f ch) = Suc (sum_list (map (\<lambda>x. tsize (snd x)) ch))"

definition tree_size :: "tree \<Rightarrow> nat" where
  "tree_size t = sum_list (map (\<lambda>x. tsize (snd x)) t)"

lemma children_smaller: "(name, data) \<in> set t \<Longrightarrow> tree_size (children data) < tree_size t"
proof -
  assume "(name, data) \<in> set t"
  then have "tsize data \<le> tree_size t"
    unfolding tree_size_def by (induction t) auto
  moreover have "tree_size (children data) < tsize data"
    by (cases data) (simp add: tree_size_def)
  ultimately show ?thesis by simp
qed

lemma enumerate_member: "(i, y) \<in> set (enumerate n xs) \<Longrightarrow> y \<in> set xs"
  by (induction xs arbitrary: n) auto

lemma set_sort_items: "set (sort_items t) = set t"
  by (simp add: sort_items_def)

text \<open>The nested function \<^verbatim>\<open>write_tree\<close> of \<^verbatim>\<open>extract_used_code\<close>; the result is the list of lines written.\<close>

function write_tree :: "tree \<Rightarrow> string \<Rightarrow> tree_line list" where
  "write_tree tree_dict pfx =
     (let items = sort_items tree_dict
      in concat (map (\<lambda>(idx, name, data).
                   let is_last_item = (idx = length items - 1);
                       connector = (if is_last_item then last_connector else mid_connector);
                       extension = (if is_last_item then last_extension else mid_extension)
                   in if is_file data then [Entry pfx connector True name]
                      else Entry pfx connector False name
                           # write_tree (children data) (pfx @ extension))
                 (enumerate 0 items)))"
  by pat_completeness auto
termination
proof (relation "measure (\<lambda>(t, p). tree_size t)")
  show "wf (measure (\<lambda>(t, p). tree_size t))" by simp
next
  fix tree_dict :: tree and pfx :: string and items x idx y name data xa xb xc
  assume "items = sort_items tree_dict" and "x \<in> set (enumerate 0 items)"
    and "(idx, y) = x" and "(name, data) = y"
  then have "(name, data) \<in> set items"
    by (auto dest: enumerate_member)
  with \<open>items = sort_items tree_dict\<close> have "(name, data) \<in> set tree_dict"
    by (simp add: set_sort_items)
  then show "((children data, pfx @ xc), tree_dict, pfx) \<in> measure (\<lambda>(t, p). tree_size t)"
    by (simp add: children_smaller)
qed

declare write_tree.simps [simp del]

text \<open>
  \<^verbatim>\<open>print_tree\<close> (its parameter \<^verbatim>\<open>is_last\<close> is never read). In a directory with more
  than \<^verbatim>\<open>max_files_per_dir\<close> children the first children are listed in insertion order;
  \<^verbatim>\<open>child_prefix\<close> is assigned only inside that loop, so the line after it raises when
  nothing was shown. The threshold is a natural number here.
\<close>

fun collect :: "(error + 'a list) list \<Rightarrow> error + 'a list" where
  "collect [] = Inr []"
| "collect (r # rs) =
     (case r of
        Inl e \<Rightarrow> Inl e
      | Inr xs \<Rightarrow> (case collect rs of Inl e \<Rightarrow> Inl e | Inr ys \<Rightarrow> Inr (xs @ ys)))"

definition truncated_lines :: "string \<Rightarrow> nat \<Rightarrow> tree \<Rightarrow> error + tree_line list" where
  "truncated_lines child_prefix max_files_per_dir kids =
     (let shown_items = take max_files_per_dir kids
      in if shown_items = [] then Inl UnboundLocalError
         else Inr (map (\<lambda>(child_name, child_data).
                          Entry child_prefix mid_connector (is_file child_data) child_name)
                       shown_items
                   @ [Ellipsis child_prefix, UpTo child_prefix (length kids)]))"

function print_tree :: "tree \<Rightarrow> string \<Rightarrow> nat \<Rightarrow> error + tree_line list" where
  "print_tree tree pfx max_files_per_dir =
     (let items = sort_items tree
      in collect (map (\<lambda>(idx, name, data).
                   let is_last_item = (idx = length items - 1);
                       connector = (if is_last_item then last_connector else mid_connector);
                       extension = (if is_last_item then last_extension else mid_extension)
                   in if is_file data then Inr [Entry pfx connector True name]
                      else (let child_count = length (children data)
                            in case (if child_count > max_files_per_dir
                                     then truncated_lines (pfx @ extension) max_files_per_dir
                                            (children data)
                                     else print_tree (children data) (pfx @ extension)
                                            max_files_per_dir) of
                                 Inl e \<Rightarrow> Inl e
                               | Inr ls \<Rightarrow> Inr (Entry pfx connector False name # ls)))
                 (enumerate 0 items)))"
  by pat_completeness auto
termination
proof (relation "measure (\<lambda>(t, p, m). tree_size t)")
  show "wf (measure (\<lambda>(t, p, m). tree_size t))" by simp
next
  fix tree :: tree and pfx :: string and max_files_per_dir :: nat
    and items x idx y name data xa xb xc xd
  assume "items = sort_items tree" and "x \<in> set (enumerate 0 items)"
    and "(idx, y) = x" and "(name, data) = y"
  then have "(name, data) \<in> set items"
    by (auto dest: enumerate_member)
  with \<open>items = sort_items tree\<close> have "(name, data) \<in> set tree"
    by (simp add: set_sort_items)
  then show "((children data, pfx @ xc, max_files_per_dir), tree, pfx, max_files_per_dir)
             \<in> measure (\<lambda>(t, p, m). tree_size t)"
    by (simp add: children_smaller)
qed

declare print_tree.simps [simp del]

subsection \<open>Reading a rendered tree\<close>

text \<open>
  The entries a call writes at its own level are the \<open>Entry\<close> lines that carry the
  prefix of the call; each is read as the pair of its file flag and its name. An entry
  is listed before another when it is a file and the other a directory, or when both are
  of the same kind and its name is not greater.
\<close>

fun line_pfx :: "tree_line \<Rightarrow> string" where
  "line_pfx (Entry p c f name) = p"
| "line_pfx (Ellipsis p) = p"
| "line_pfx (UpTo p n) = p"

fun level_entries :: "string \<Rightarrow> tree_line list \<Rightarrow> (bool \<times> string) list" where
  "level_entries pfx [] = []"
| "level_entries pfx (Entry p c f name # ls) =
     (if p = pfx then (f, name) # level_entries pfx ls else level_entries pfx ls)"
| "level_entries pfx (l # ls) = level_entries pfx ls"

definition listed_before :: "bool \<times> string \<Rightarrow> bool \<times> string \<Rightarrow> bool" where
  "listed_before a b = ((fst a \<and> \<not> fst b) \<or> (fst a = fst b \<and> snd a \<le> snd b))"

definition demo_tree :: tree where
  "demo_tree = [(''a'', TNode False [(''x.py'', TNode True [])]), (''b.py'', TNode True [])]"

text \<open>
  The parts of an entry line: its file flag, its name and its connector. \<open>listed\<close> gives
  the paths, from the root of a dictionary, of the nodes that the renderers reach: they do
  not descend into a node marked as a file.
\<close>

fun line_is_file :: "tree_line \<Rightarrow> bool" where
  "line_is_file (Entry p c f name) = f"
| "line_is_file _ = False"

fun line_name :: "tree_line \<Rightarrow> string" where
  "line_name (Entry p c f name) = name"
| "line_name _ = []"

fun line_connector :: "tree_line \<Rightarrow> string" where
  "line_connector (Entry p c f name) = c"
| "line_connector _ = []"

fun listed_node :: "string \<Rightarrow> tnode \<Rightarrow> string list list" where
  "listed_node name (TNode f ch) =
     [name] # (if f then [] else map ((#) name) (concat (map (\<lambda>x. listed_node (fst x) (snd x)) ch)))"

definition listed :: "tree \<Rightarrow> string list list" where
  "listed t = concat (map (\<lambda>x. listed_node (fst x) (snd x)) t)"

text \<open>
  The walk of \<^verbatim>\<open>build_tree_structure\<close> along the parts of a path is clear when it passes
  through no node marked as a file before its last part. \<open>has_node\<close> holds for the path of
  every node of a dictionary, with its file flag; a dictionary is built from a set of
  paths when each of its nodes lies on one of them, a file node at its end.
\<close>

fun clear :: "tree \<Rightarrow> string list \<Rightarrow> bool" where
  "clear t [] = True"
| "clear t (part # rest) =
     (case map_of t part of
        None \<Rightarrow> True
      | Some d \<Rightarrow> rest = [] \<or> (\<not> is_file d \<and> clear (children d) rest))"

inductive has_node :: "tree \<Rightarrow> string list \<Rightarrow> bool \<Rightarrow> bool" where
  here: "(name, d) \<in> set t \<Longrightarrow> has_node t [name] (is_file d)"
| below: "(name, d) \<in> set t \<Longrightarrow> has_node (children d) ps f \<Longrightarrow> has_node t (name # ps) f"

definition built_from :: "tree \<Rightarrow> string list set \<Rightarrow> bool" where
  "built_from t F = (\<forall>ps f. has_node t ps f \<longrightarrow> (\<exists>g \<in> F. prefix ps g \<and> (f \<longrightarrow> ps = g)))"

subsection \<open>The output artifact\<close>

definition digit_char :: "nat \<Rightarrow> char" where
  "digit_char d = char_of (48 + d)"

function show_nat :: "nat \<Rightarrow> string" where
  "show_nat n = (if n < 10 then [digit_char n] else show_nat (n div 10) @ [digit_char (n mod 10)])"
  by pat_completeness auto
termination
  by (relation "measure id") simp_all

declare show_nat.simps [simp del]

definition file_icon :: string where
  "file_icon = [CHR 0xF0, CHR 0x9F, CHR 0x93, CHR 0x84]"

definition folder_icon :: string where
  "folder_icon = [CHR 0xF0, CHR 0x9F, CHR 0x93, CHR 0x81]"

fun render_line :: "tree_line \<Rightarrow> string" where
  "render_line (Entry pfx connector f name) =
     pfx @ connector @ (if f then file_icon @ '' '' @ name else folder_icon @ '' '' @ name @ ''/'')"
| "render_line (Ellipsis child_prefix) = child_prefix @ mid_connector @ ''...''"
| "render_line (UpTo child_prefix n) =
     child_prefix @ last_connector @ ''(up to '' @ show_nat n @ '' files in this directory)''"

text \<open>
  \<^verbatim>\<open>file_path.parent.relative_to(project_dir) if file_path.parent != project_dir
  else '(root)'\<close>.
\<close>

definition directory_of :: "path \<Rightarrow> path \<Rightarrow> error + string" where
  "directory_of file_path project_dir =
     (if parent file_path \<noteq> project_dir
      then (case relative_to (parent file_path) project_dir of
              Inl e \<Rightarrow> Inl e
            | Inr d \<Rightarrow> Inr (path_str d))
      else Inr ''(root)'')"

text \<open>
  Of the console output only the tree lines of \<^verbatim>\<open>print_tree\<close> are kept; of the
  other \<^verbatim>\<open>print\<close> calls only the exceptions are.
\<close>

definition print_directory_structure :: "path list \<Rightarrow> path \<Rightarrow> error + tree_line list" where
  "print_directory_structure files project_dir =
     (case build_tree_structure files project_dir of
        Inl e \<Rightarrow> Inl e
      | Inr tree \<Rightarrow> print_tree tree [] 8)"

fun print_file_locations_loop :: "path list \<Rightarrow> path \<Rightarrow> error + unit" where
  "print_file_locations_loop [] project_dir = Inr ()"
| "print_file_locations_loop (file_path # files) project_dir =
     (case relative_to file_path project_dir of
        Inl e \<Rightarrow> Inl e
      | Inr rel_path \<Rightarrow>
          (case directory_of file_path project_dir of
             Inl e \<Rightarrow> Inl e
           | Inr d \<Rightarrow> print_file_locations_loop files project_dir))"

definition print_file_locations :: "path list \<Rightarrow> path \<Rightarrow> error + unit" where
  "print_file_locations files project_dir =
     print_file_locations_loop (sort_key path_str files) project_dir"

text \<open>
  The artifact is the list of strings passed to \<^verbatim>\<open>out.write\<close>, in order. An f-string
  is evaluated before its \<^verbatim>\<open>write\<close>, so an exception leaves the chunks written
  before it.
\<close>

definition write_header :: "path \<Rightarrow> nat \<Rightarrow> tree \<Rightarrow> string list" where
  "write_header project_dir total_files tree =
     [replicate 80 CHR ''='' @ nl,
      ''EXTRACTED FILES SUMMARY'' @ nl,
      replicate 80 CHR ''='' @ nl @ nl,
      ''Total Files: '' @ show_nat total_files @ nl,
      ''Project Root: '' @ path_str project_dir @ nl @ nl,
      ''Directory Tree Structure:'' @ nl,
      folder_icon @ '' '' @ path_name project_dir @ ''/'' @ nl]
     @ map (\<lambda>l. render_line l @ nl) (write_tree tree [])
     @ [nl @ replicate 80 CHR ''='' @ nl @ nl]"

definition write_section :: "path \<Rightarrow> string \<Rightarrow> string \<Rightarrow> string \<Rightarrow> string list" where
  "write_section file_path rel_path directory code =
     [nl @ replicate 60 CHR ''='' @ nl,
      ''FILE: '' @ path_str file_path @ nl,
      ''Relative Path: '' @ rel_path @ nl,
      ''Directory: '' @ directory @ nl,
      ''Extracted Lines: '' @ show_nat (length (splitlines code)) @ nl,
      replicate 60 CHR ''='' @ nl @ nl,
      code,
      nl @ nl]"

fun write_code :: "path \<Rightarrow> extracted \<Rightarrow> string list \<times> error option" where
  "write_code project_dir [] = ([], None)"
| "write_code project_dir ((file_path, code) # rest) =
     (case relative_to file_path project_dir of
        Inl e \<Rightarrow> (take 2 (write_section file_path [] [] code), Some e)
      | Inr rel_path \<Rightarrow>
          (case directory_of file_path project_dir of
             Inl e \<Rightarrow> (take 3 (write_section file_path (path_str rel_path) [] code), Some e)
           | Inr directory \<Rightarrow>
               (case write_code project_dir rest of
                  (chunks, err) \<Rightarrow>
                    (write_section file_path (path_str rel_path) directory code @ chunks, err))))"

text \<open>
  The outcome of a run: the artifact (\<open>None\<close> when the output file was never opened)
  and the exception that ended the run, if any.
\<close>

record run =
  artifact :: "string list option"
  raised :: "error option"

definition aborted :: "error \<Rightarrow> run" where
  "aborted e = \<lparr>artifact = None, raised = Some e\<rparr>"

definition extract_used_code :: "filesystem \<Rightarrow> path \<Rightarrow> path \<Rightarrow> string list \<Rightarrow> run" where
  "extract_used_code fs project_dir entry_file exclude_patterns =
     (let discovered_files = discover_files fs project_dir entry_file exclude_patterns
      in case print_directory_structure discovered_files project_dir of
           Inl e \<Rightarrow> aborted e
         | Inr console \<Rightarrow>
        (case print_file_locations discovered_files project_dir of
           Inl e \<Rightarrow> aborted e
         | Inr u \<Rightarrow>
        (case extraction_phase fs project_dir entry_file exclude_patterns of
           Inl e \<Rightarrow> aborted e
         | Inr extracted_code \<Rightarrow>
        (case build_tree_structure (map fst extracted_code) project_dir of
           Inl e \<Rightarrow> aborted e
         | Inr tree \<Rightarrow>
        (case write_code project_dir extracted_code of
           (chunks, err) \<Rightarrow>
             \<lparr>artifact = Some (write_header project_dir (length extracted_code) tree @ chunks),
              raised = err\<rparr>)))))"

subsection \<open>Reachable files\<close>

text \<open>
  The files an import statement of \<open>f\<close> resolves to, the skip list left out, are the
  import edges of \<open>f\<close>. A file is reachable when a chain of such edges leads to it
  from the entry file over files that match no exclude pattern.
\<close>

definition import_targets :: "filesystem \<Rightarrow> path \<Rightarrow> path \<Rightarrow> path set" where
  "import_targets fs project_dir f =
     {g. \<exists>m names. (m, names) \<in> set (parse_imports_with_names fs f) \<and> m \<notin> set skip_list
                    \<and> resolve_import_to_file fs m project_dir = Some g}"

inductive_set reachable :: "filesystem \<Rightarrow> path \<Rightarrow> string list \<Rightarrow> path \<Rightarrow> path set"
  for fs :: filesystem and project_dir :: path and exclude_patterns :: "string list"
    and entry_file :: path where
  entry: "\<not> should_exclude exclude_patterns entry_file \<Longrightarrow>
          entry_file \<in> reachable fs project_dir exclude_patterns entry_file"
| step: "f \<in> reachable fs project_dir exclude_patterns entry_file \<Longrightarrow>
         g \<in> import_targets fs project_dir f \<Longrightarrow> \<not> should_exclude exclude_patterns g \<Longrightarrow>
         g \<in> reachable fs project_dir exclude_patterns entry_file"

text \<open>The invariant of both worklist loops.\<close>

definition bfs_inv ::
  "filesystem \<Rightarrow> path \<Rightarrow> string list \<Rightarrow> path \<Rightarrow> request list \<Rightarrow> path set \<Rightarrow> path list \<Rightarrow> bool" where
  "bfs_inv fs pd ex entry q processed disc =
     (set disc \<subseteq> reachable fs pd ex entry
      \<and> (\<forall>f \<in> fst ` set q. \<not> should_exclude ex f \<longrightarrow> f \<in> reachable fs pd ex entry)
      \<and> (\<forall>f \<in> set disc. \<forall>g \<in> import_targets fs pd f. g \<in> processed \<or> g \<in> fst ` set q)
      \<and> (\<forall>f \<in> processed. f \<in> set disc \<or> should_exclude ex f)
      \<and> set disc \<subseteq> processed
      \<and> distinct disc
      \<and> (\<not> should_exclude ex entry \<longrightarrow> entry \<in> processed \<or> entry \<in> fst ` set q))"

subsection \<open>Plain imports and wildcard requests\<close>

text \<open>
  A file contains a plain \<^verbatim>\<open>import m\<close> when some \<^verbatim>\<open>ast.Import\<close> node of its tree, at
  any depth, has an alias named \<open>m\<close>. A name list is a wildcard request when it
  contains \<open>''*''\<close>.
\<close>

fun imports_module :: "string \<Rightarrow> node \<Rightarrow> bool" where
  "imports_module m (Import l e names) = (m \<in> set names)"
| "imports_module m _ = False"

definition has_plain_import :: "node list \<Rightarrow> string \<Rightarrow> bool" where
  "has_plain_import body m = list_ex (imports_module m) (walk [Other body])"

definition wildcard_for :: "import_map \<Rightarrow> string \<Rightarrow> bool" where
  "wildcard_for imps m =
     (case map_of imps m of None \<Rightarrow> False | Some names \<Rightarrow> ''*'' \<in> set names)"

subsection \<open>A small project used for the concrete runs\<close>

definition demo_dir :: path where
  "demo_dir = [''/'', ''proj'']"

definition x_content :: string where
  "x_content = ''K = 1'' @ nl @ ''def foo():'' @ nl @ ''    return K'' @ nl
               @ ''def bar():'' @ nl @ ''    return 2'' @ nl"

definition demo_fs :: filesystem where
  "demo_fs =
     [(demo_dir @ [''main.py''],
         RegularFile (''from x import foo'' @ nl @ ''import b'' @ nl)
           (Some [ImportFrom 1 (Some 1) (Some ''x'') [''foo''], Import 2 (Some 2) [''b'']])),
      (demo_dir @ [''b.py''],
         RegularFile (''import x'' @ nl) (Some [Import 1 (Some 1) [''x'']])),
      (demo_dir @ [''start.py''],
         RegularFile (''import a'' @ nl @ ''import c'' @ nl)
           (Some [Import 1 (Some 1) [''a''], Import 2 (Some 2) [''c'']])),
      (demo_dir @ [''a.py''],
         RegularFile (''from x import foo'' @ nl)
           (Some [ImportFrom 1 (Some 1) (Some ''x'') [''foo'']])),
      (demo_dir @ [''c.py''],
         RegularFile (''from x import bar'' @ nl)
           (Some [ImportFrom 1 (Some 1) (Some ''x'') [''bar'']])),
      (demo_dir @ [''x.py''],
         RegularFile x_content
           (Some [Assign 1 (Some 1), FunctionDef 2 (Some 3) ''foo'' [],
                  FunctionDef 4 (Some 5) ''bar'' []])),
      (demo_dir @ [''top.py''],
         RegularFile (''import b'' @ nl @ ''import a'' @ nl)
           (Some [Import 1 (Some 1) [''b''], Import 2 (Some 2) [''a'']])),
      (demo_dir @ [''mixed.py''],
         RegularFile (''from x import foo'' @ nl @ ''import x'' @ nl @ ''from x import bar'' @ nl)
           (Some [ImportFrom 1 (Some 1) (Some ''x'') [''foo''], Import 2 (Some 2) [''x''],
                  ImportFrom 3 (Some 3) (Some ''x'') [''bar'']]))]"

definition wide_names :: "string list" where
  "wide_names = [''m1.py'', ''m2.py'', ''m3.py'', ''m4.py'', ''m5.py'', ''m6.py'', ''m7.py'',
                 ''m8.py'', ''m9.py'']"

definition wide_main :: string where
  "wide_main = ''import pkg.m2, pkg.m3, pkg.m4, pkg.m5, pkg.m6, pkg.m7, pkg.m8, pkg.m9'' @ nl"

definition wide_fs :: filesystem where
  "wide_fs =
     (demo_dir @ [''pkg'', ''m1.py''],
        RegularFile wide_main
          (Some [Import 1 (Some 1) [''pkg.m2'', ''pkg.m3'', ''pkg.m4'', ''pkg.m5'', ''pkg.m6'',
                                    ''pkg.m7'', ''pkg.m8'', ''pkg.m9'']]))
     # map (\<lambda>n. (demo_dir @ [''pkg'', n], RegularFile (''X = 1'' @ nl) (Some [Assign 1 (Some 1)])))
         (tl wide_names)"

definition wide_code :: extracted where
  "wide_code = (demo_dir @ [''pkg'', ''m1.py''], wide_main)
               # map (\<lambda>n. (demo_dir @ [''pkg'', n], ''X = 1'' @ nl)) (tl wide_names)"

text \<open>
  A project whose entry file lies in a directory named \<^verbatim>\<open>x.py\<close>: the import
  \<^verbatim>\<open>from x import foo\<close> resolves to that directory.
\<close>

definition dir_fs :: filesystem where
  "dir_fs =
     [(demo_dir @ [''x.py'', ''main.py''],
         RegularFile (''from x import foo'' @ nl)
           (Some [ImportFrom 1 (Some 1) (Some ''x'') [''foo'']])),
      (demo_dir @ [''x.py''], Unreadable)]"

definition wide_tree :: tree where
  "wide_tree = [(''pkg'', TNode False (map (\<lambda>n. (n, TNode True []))
     [''m1.py'', ''m2.py'', ''m3.py'', ''m4.py'', ''m5.py'', ''m6.py'', ''m7.py'', ''m8.py'',
      ''m9.py'']))]"

definition nested_content :: string where
  "nested_content = ''class foo:'' @ nl @ ''    def bar(self):'' @ nl @ ''        return 1'' @ nl"

definition nested_fs :: filesystem where
  "nested_fs =
     [(demo_dir @ [''app.py''],
         RegularFile (''from nested import foo'' @ nl)
           (Some [ImportFrom 1 (Some 1) (Some ''nested'') [''foo'']])),
      (demo_dir @ [''nested.py''],
         RegularFile nested_content
           (Some [ClassDef 1 (Some 3) ''foo'' [FunctionDef 2 (Some 3) ''bar'' []]]))]"

subsection \<open>The parts of a partial extraction, in the words of the specification\<close>

text \<open>
  The specification speaks of the source lines of a definition. For a text whose only line
  boundary is the line feed (\<open>lf_only\<close>) these are the lines that \<^verbatim>\<open>ast.parse\<close> numbers:
  the pieces between line feeds, a final empty piece left out.
\<close>

fun lf_only :: "string \<Rightarrow> bool" where
  "lf_only [] = True"
| "lf_only (c # cs) = ((line_break (c # cs) = 0 \<or> c = CHR 0x0A) \<and> lf_only cs)"

definition lf_lines :: "string \<Rightarrow> string list" where
  "lf_lines s =
     (let ls = split_on CHR 0x0A s in if last ls = [] then butlast ls else ls)"

text \<open>
  The source lines of a node are those from its \<^verbatim>\<open>lineno\<close> to its \<^verbatim>\<open>end_lineno\<close>. The
  global-scope prologue is made of the source lines of the top-level imports and
  assignments, in file order; the text of a definition of its own source lines. The
  definitions a request selects are, for each requested name in request order, the first
  function or class of that name in the order of \<^verbatim>\<open>ast.walk\<close>, when there is one.
\<close>

definition source_lines :: "string \<Rightarrow> node \<Rightarrow> string list" where
  "source_lines content n = slice (lf_lines content) (fst (node_span n)) (snd (node_span n))"

definition prologue_text :: "string \<Rightarrow> node list \<Rightarrow> string" where
  "prologue_text content body = join nl (concat (map (source_lines content) (filter is_global body)))"

definition definition_text :: "string \<Rightarrow> node \<Rightarrow> string" where
  "definition_text content n = join nl (source_lines content n)"

definition requested_defs :: "node list \<Rightarrow> string list \<Rightarrow> node list" where
  "requested_defs body names =
     List.map_filter (\<lambda>name. find (is_def name) (walk [Other body])) names"

section \<open>Properties of the traversals\<close>

lemma update_fresh_keys:
  "k \<notin> fst ` set al \<Longrightarrow> map fst (AList.update k v al) = map fst al @ [k]"
  by (induction al) auto

text \<open>
  The extraction loop and the discovery loop make the same moves: from any state in
  which every key of \<^verbatim>\<open>extracted_code\<close> is processed, the keys of the final
  dictionary are the list the discovery loop returns from the same state.
\<close>

lemma extract_loop_keys:
  "extract_loop fs pd ex q processed acc = Inr code \<Longrightarrow> fst ` set acc \<subseteq> processed \<Longrightarrow>
   map fst code = discover_loop fs pd ex q processed (map fst acc)"
proof (induction fs pd ex q processed acc rule: extract_loop.induct)
  case (1 fs pd ex processed acc)
  then show ?case by simp
next
  case (2 fs pd ex cur names rest processed acc)
  show ?case
  proof (cases "cur \<in> processed")
    case True
    with 2 show ?thesis by simp
  next
    case unprocessed: False
    show ?thesis
    proof (cases "should_exclude ex cur")
      case True
      with unprocessed "2.prems" obtain rel where rel: "relative_to cur pd = Inr rel"
        by (auto split: sum.splits)
      with True unprocessed "2.prems" "2.IH"(2) [OF unprocessed True rel] show ?thesis
        by auto
    next
      case False
      with unprocessed "2.prems" obtain rel c where rel: "relative_to cur pd = Inr rel"
        and c: "extract_file fs cur names = Inr c"
        by (auto split: sum.splits)
      have "cur \<notin> fst ` set acc" using unprocessed "2.prems"(2) by auto
      then have keys: "map fst (AList.update cur c acc) = map fst acc @ [cur]"
        by (rule update_fresh_keys)
      have sub: "fst ` set (AList.update cur c acc) \<subseteq> insert cur processed"
        using "2.prems"(2) by (auto simp: dom_update)
      show ?thesis
        using "2.IH"(3) [OF unprocessed False rel c _ sub] "2.prems"(1) unprocessed False rel c keys
        by simp
    qed
  qed
qed

text \<open>
  C3 (two-pass equivalence). For the same file system, project directory, entry file
  and exclude patterns, whenever the extraction phase of \<^verbatim>\<open>extract_used_code\<close>
  completes, the keys of \<^verbatim>\<open>extracted_code\<close>, in insertion order, are exactly the list
  that \<^verbatim>\<open>discover_files\<close> returns: same members, same order.
\<close>

theorem two_pass_same_files:
  assumes "extraction_phase fs project_dir entry_file exclude_patterns = Inr extracted_code"
  shows "map fst extracted_code = discover_files fs project_dir entry_file exclude_patterns"
  using extract_loop_keys [of fs project_dir exclude_patterns "[(entry_file, [''*''])]" "{}" "[]"
      extracted_code] assms
  by (simp add: extraction_phase_def discover_files_def)

theorem two_pass_same_files_witness:
  "extraction_phase demo_fs demo_dir (demo_dir @ [''start.py'']) [] =
     Inr [(demo_dir @ [''start.py''], ''import a'' @ nl @ ''import c'' @ nl),
          (demo_dir @ [''a.py''], ''from x import foo'' @ nl),
          (demo_dir @ [''c.py''], ''from x import bar'' @ nl),
          (demo_dir @ [''x.py''],
             ''K = 1'' @ nl @ nl @ nl @ ''def foo():'' @ nl @ ''    return K'')]
   \<and> discover_files demo_fs demo_dir (demo_dir @ [''start.py'']) [] =
       [demo_dir @ [''start.py''], demo_dir @ [''a.py''], demo_dir @ [''c.py''],
        demo_dir @ [''x.py'']]"
proof -
  have run: "extraction_phase demo_fs demo_dir (demo_dir @ [''start.py'']) [] =
     Inr [(demo_dir @ [''start.py''], ''import a'' @ nl @ ''import c'' @ nl),
          (demo_dir @ [''a.py''], ''from x import foo'' @ nl),
          (demo_dir @ [''c.py''], ''from x import bar'' @ nl),
          (demo_dir @ [''x.py''],
             ''K = 1'' @ nl @ nl @ nl @ ''def foo():'' @ nl @ ''    return K'')]"
    by code_simp
  from two_pass_same_files [OF run] show ?thesis
    using run by simp
qed

section \<open>The import parser\<close>

lemma wildcard_import_from:
  "wildcard_for imps m \<Longrightarrow> wildcard_for (import_from k names imps) m"
  by (auto simp: wildcard_for_def import_from_def update_conv' Let_def
           split: option.splits if_splits)

lemma wildcard_fold_star:
  "wildcard_for imps m \<or> m \<in> set names \<Longrightarrow>
   wildcard_for (fold (\<lambda>alias_name acc. AList.update alias_name [''*''] acc) names imps) m"
proof (induction names arbitrary: imps)
  case Nil
  then show ?case by simp
next
  case (Cons a names)
  have "wildcard_for (AList.update a [''*''] imps) m \<or> m \<in> set names"
    using Cons.prems by (auto simp: wildcard_for_def update_conv' split: option.splits)
  then show ?case using Cons.IH by simp
qed

lemma wildcard_parse_node:
  "wildcard_for imps m \<or> imports_module m n \<Longrightarrow> wildcard_for (parse_node n imps) m"
  by (cases n) (auto simp: wildcard_import_from wildcard_fold_star split: option.splits)

lemma wildcard_fold_nodes:
  "wildcard_for imps m \<or> list_ex (imports_module m) ns \<Longrightarrow>
   wildcard_for (fold parse_node ns imps) m"
proof (induction ns arbitrary: imps)
  case Nil
  then show ?case by simp
next
  case (Cons n ns)
  then show ?case using wildcard_parse_node [of imps m n] by auto
qed

text \<open>
  C8 (wildcard dominance inside the parser). For every file that can be read and
  parsed, if its tree contains a plain \<^verbatim>\<open>import X\<close> at any depth, then the mapping
  returned by \<^verbatim>\<open>parse_imports_with_names\<close> maps \<open>X\<close> to a name list that contains
  \<open>''*''\<close>, wherever the \<^verbatim>\<open>from X import ...\<close> statements for the same module stand.
\<close>

theorem parser_wildcard_dominates:
  assumes "read_and_parse fs file_path = Some (content, body)"
    and "has_plain_import body module"
  shows "\<exists>names. map_of (parse_imports_with_names fs file_path) module = Some names
                 \<and> ''*'' \<in> set names"
  using wildcard_fold_nodes [of "[]" module "walk [Other body]"] assms
  by (auto simp: parse_imports_with_names_def has_plain_import_def wildcard_for_def
           split: option.splits)

theorem parser_wildcard_dominates_witness:
  "read_and_parse demo_fs (demo_dir @ [''mixed.py'']) =
     Some (''from x import foo'' @ nl @ ''import x'' @ nl @ ''from x import bar'' @ nl,
           [ImportFrom 1 (Some 1) (Some ''x'') [''foo''], Import 2 (Some 2) [''x''],
            ImportFrom 3 (Some 3) (Some ''x'') [''bar'']])
   \<and> has_plain_import [ImportFrom 1 (Some 1) (Some ''x'') [''foo''], Import 2 (Some 2) [''x''],
                        ImportFrom 3 (Some 3) (Some ''x'') [''bar'']] ''x''
   \<and> (\<exists>names. map_of (parse_imports_with_names demo_fs (demo_dir @ [''mixed.py''])) ''x''
                  = Some names \<and> ''*'' \<in> set names)"
proof -
  have parsed: "read_and_parse demo_fs (demo_dir @ [''mixed.py'']) =
     Some (''from x import foo'' @ nl @ ''import x'' @ nl @ ''from x import bar'' @ nl,
           [ImportFrom 1 (Some 1) (Some ''x'') [''foo''], Import 2 (Some 2) [''x''],
            ImportFrom 3 (Some 3) (Some ''x'') [''bar'']])"
    by code_simp
  have plain: "has_plain_import [ImportFrom 1 (Some 1) (Some ''x'') [''foo''],
                  Import 2 (Some 2) [''x''], ImportFrom 3 (Some 3) (Some ''x'') [''bar'']] ''x''"
    by code_simp
  from parser_wildcard_dominates [OF parsed plain] parsed plain show ?thesis
    by simp
qed

section \<open>Requests in the extraction loop\<close>

lemma enqueue_import_append:
  "enqueue_import fs pd processed imp (q @ r) = q @ enqueue_import fs pd processed imp r"
  by (cases imp) (simp add: enqueue_import_def split: option.splits)

lemma enqueue_imports_append:
  "enqueue_imports fs pd processed imps (q @ r) = q @ enqueue_imports fs pd processed imps r"
  unfolding enqueue_imports_def
  by (induction imps arbitrary: r) (simp_all add: enqueue_import_append)

text \<open>The entry of a processed file is never written again.\<close>

lemma processed_entry_kept:
  "extract_loop fs pd ex q processed acc = Inr code \<Longrightarrow> X \<in> processed \<Longrightarrow>
   map_of code X = map_of acc X"
proof (induction fs pd ex q processed acc rule: extract_loop.induct)
  case (1 fs pd ex processed acc)
  then show ?case by simp
next
  case (2 fs pd ex cur names rest processed acc)
  show ?case
  proof (cases "cur \<in> processed")
    case True
    with 2 show ?thesis by simp
  next
    case unprocessed: False
    then have neq: "cur \<noteq> X" using "2.prems"(2) by auto
    show ?thesis
    proof (cases "should_exclude ex cur")
      case True
      with unprocessed "2.prems" obtain rel where rel: "relative_to cur pd = Inr rel"
        by (auto split: sum.splits)
      with True unprocessed "2.prems" "2.IH"(2) [OF unprocessed True rel] show ?thesis
        by auto
    next
      case False
      with unprocessed "2.prems" obtain rel c where rel: "relative_to cur pd = Inr rel"
        and c: "extract_file fs cur names = Inr c"
        by (auto split: sum.splits)
      have "map_of code X = map_of (AList.update cur c acc) X"
        using "2.IH"(3) [OF unprocessed False rel c] "2.prems" unprocessed False rel c
        by simp
      then show ?thesis using neq by (simp add: update_conv')
    qed
  qed
qed

text \<open>
  New requests go to the end of the queue, so the request for a file that stands first
  in the queue is the one that arrived first. It alone decides the entry of the file.
\<close>

lemma first_request_decides:
  assumes "extract_loop fs pd ex (q1 @ (X, names) # q2) processed acc = Inr code"
    and "X \<notin> fst ` set q1" and "X \<notin> processed" and "\<not> should_exclude ex X"
  shows "\<exists>c. extract_file fs X names = Inr c \<and> map_of code X = Some c"
  using assms
proof (induction q1 arbitrary: q2 processed acc)
  case Nil
  then obtain rel c where rel: "relative_to X pd = Inr rel"
    and c: "extract_file fs X names = Inr c"
    by (auto split: sum.splits)
  have "map_of code X = map_of (AList.update X c acc) X"
    using Nil rel c
    by (intro processed_entry_kept [where processed = "insert X processed"]) auto
  then show ?case using c by (simp add: update_conv')
next
  case (Cons r q1)
  obtain Y ns where r: "r = (Y, ns)" by (cases r)
  with Cons.prems have neq: "Y \<noteq> X" and notin: "X \<notin> fst ` set q1" by auto
  show ?case
  proof (cases "Y \<in> processed")
    case True
    with Cons.prems r show ?thesis
      using Cons.IH [of q2 processed acc] notin by simp
  next
    case unprocessed: False
    show ?thesis
    proof (cases "should_exclude ex Y")
      case True
      with unprocessed Cons.prems r obtain rel where rel: "relative_to Y pd = Inr rel"
        by (auto split: sum.splits)
      show ?thesis
        using Cons.IH [of q2 "insert Y processed" acc] Cons.prems r True unprocessed rel neq notin
        by simp
    next
      case False
      with unprocessed Cons.prems r obtain rel c where rel: "relative_to Y pd = Inr rel"
        and c: "extract_file fs Y ns = Inr c"
        by (auto split: sum.splits)
      let ?new = "enqueue_imports fs pd (insert Y processed) (parse_imports_with_names fs Y) []"
      have q: "enqueue_imports fs pd (insert Y processed) (parse_imports_with_names fs Y)
                 (q1 @ (X, names) # q2) = q1 @ (X, names) # (q2 @ ?new)"
        using enqueue_imports_append [of fs pd "insert Y processed" _ "q1 @ (X, names) # q2" "[]"]
        by simp
      show ?thesis
        using Cons.IH [of "q2 @ ?new" "insert Y processed" "AList.update Y c acc"]
          Cons.prems r False unprocessed rel c neq notin q
        by simp
    qed
  qed
qed

text \<open>
  C1 (wildcard precedence over the whole graph), as stated: if any processed file
  holds a plain \<^verbatim>\<open>import X\<close>, the final entry of \<open>X\<close> is its raw content. The run
  from \<^verbatim>\<open>main.py\<close> refutes it: \<^verbatim>\<open>main.py\<close> requests \<open>foo\<close> from \<^verbatim>\<open>x.py\<close> and imports
  \<^verbatim>\<open>b.py\<close>, whose plain \<^verbatim>\<open>import x\<close> is met when \<^verbatim>\<open>x.py\<close> is already processed; the
  entry of \<^verbatim>\<open>x.py\<close> stays the partial extraction.
\<close>

theorem wildcard_precedence_counterexample:
  "extraction_phase demo_fs demo_dir (demo_dir @ [''main.py'']) [] =
     Inr [(demo_dir @ [''main.py''], ''from x import foo'' @ nl @ ''import b'' @ nl),
          (demo_dir @ [''x.py''],
             ''K = 1'' @ nl @ nl @ nl @ ''def foo():'' @ nl @ ''    return K''),
          (demo_dir @ [''b.py''], ''import x'' @ nl)]
   \<and> read_and_parse demo_fs (demo_dir @ [''b.py'']) =
       Some (''import x'' @ nl, [Import 1 (Some 1) [''x'']])
   \<and> has_plain_import [Import 1 (Some 1) [''x'']] ''x''
   \<and> resolve_import_to_file demo_fs ''x'' demo_dir = Some (demo_dir @ [''x.py''])
   \<and> read_file demo_fs (demo_dir @ [''x.py'']) = Inr x_content
   \<and> x_content \<noteq> ''K = 1'' @ nl @ nl @ nl @ ''def foo():'' @ nl @ ''    return K''"
  by code_simp

text \<open>
  C1, amended. In every state of the extraction loop, when the earliest queued request
  for a file \<open>X\<close> that is neither processed nor excluded contains \<open>''*''\<close>, and the run
  completes, the final entry of \<open>X\<close> is its entire raw content, whatever requests for
  \<open>X\<close> stand later in the queue or arrive afterwards.
\<close>

theorem first_wildcard_request_whole_file:
  assumes "extract_loop fs project_dir exclude_patterns (q1 @ (X, names) # q2) processed
             extracted_code = Inr final_code"
    and "X \<notin> fst ` set q1" and "X \<notin> processed"
    and "\<not> should_exclude exclude_patterns X"
    and "''*'' \<in> set names"
  shows "\<exists>content. read_file fs X = Inr content \<and> map_of final_code X = Some content"
  using first_request_decides [OF assms(1-4)] assms(5)
  by (simp add: extract_file_def)

theorem first_wildcard_request_whole_file_witness:
  "extract_loop demo_fs demo_dir []
     ([(demo_dir @ [''a.py''], [''*''])] @ (demo_dir @ [''x.py''], [''*'']) # [])
     {demo_dir @ [''top.py''], demo_dir @ [''b.py'']}
     [(demo_dir @ [''top.py''], ''import b'' @ nl @ ''import a'' @ nl),
      (demo_dir @ [''b.py''], ''import x'' @ nl)]
   = Inr [(demo_dir @ [''top.py''], ''import b'' @ nl @ ''import a'' @ nl),
          (demo_dir @ [''b.py''], ''import x'' @ nl),
          (demo_dir @ [''a.py''], ''from x import foo'' @ nl),
          (demo_dir @ [''x.py''], x_content)]
   \<and> demo_dir @ [''x.py''] \<notin> fst ` set [(demo_dir @ [''a.py''], [''*''])]
   \<and> demo_dir @ [''x.py''] \<notin> {demo_dir @ [''top.py''], demo_dir @ [''b.py'']}
   \<and> \<not> should_exclude [] (demo_dir @ [''x.py''])
   \<and> ''*'' \<in> set [''*'']
   \<and> (\<exists>content. read_file demo_fs (demo_dir @ [''x.py'']) = Inr content
         \<and> map_of [(demo_dir @ [''top.py''], ''import b'' @ nl @ ''import a'' @ nl),
                    (demo_dir @ [''b.py''], ''import x'' @ nl),
                    (demo_dir @ [''a.py''], ''from x import foo'' @ nl),
                    (demo_dir @ [''x.py''], x_content)] (demo_dir @ [''x.py'']) = Some content)"
proof -
  have run: "extract_loop demo_fs demo_dir []
     ([(demo_dir @ [''a.py''], [''*''])] @ (demo_dir @ [''x.py''], [''*'']) # [])
     {demo_dir @ [''top.py''], demo_dir @ [''b.py'']}
     [(demo_dir @ [''top.py''], ''import b'' @ nl @ ''import a'' @ nl),
      (demo_dir @ [''b.py''], ''import x'' @ nl)]
   = Inr [(demo_dir @ [''top.py''], ''import b'' @ nl @ ''import a'' @ nl),
          (demo_dir @ [''b.py''], ''import x'' @ nl),
          (demo_dir @ [''a.py''], ''from x import foo'' @ nl),
          (demo_dir @ [''x.py''], x_content)]"
    by code_simp
  have h2: "demo_dir @ [''x.py''] \<notin> fst ` set [(demo_dir @ [''a.py''], [''*''])]"
    by simp
  have h3: "demo_dir @ [''x.py''] \<notin> {demo_dir @ [''top.py''], demo_dir @ [''b.py'']}"
    by simp
  have h4: "\<not> should_exclude [] (demo_dir @ [''x.py''])"
    by (simp add: should_exclude_def)
  have h5: "''*'' \<in> set [''*'']" by simp
  from first_wildcard_request_whole_file [OF run h2 h3 h4 h5] run h2 h3 h4
  show ?thesis by simp
qed

text \<open>
  C2 (request merging on enqueue), as stated: a request arriving for a queued file is
  merged into the queued request by set union. The run from \<^verbatim>\<open>start.py\<close> refutes it:
  after \<^verbatim>\<open>a.py\<close> and \<^verbatim>\<open>c.py\<close> the queue holds two separate requests for \<^verbatim>\<open>x.py\<close>,
  \<open>[foo]\<close> and \<open>[bar]\<close>, and the entry of \<^verbatim>\<open>x.py\<close> is built from \<open>[foo]\<close> alone, not
  from the union.
\<close>

theorem request_merging_counterexample:
  "extraction_phase demo_fs demo_dir (demo_dir @ [''start.py'']) [] =
     Inr [(demo_dir @ [''start.py''], ''import a'' @ nl @ ''import c'' @ nl),
          (demo_dir @ [''a.py''], ''from x import foo'' @ nl),
          (demo_dir @ [''c.py''], ''from x import bar'' @ nl),
          (demo_dir @ [''x.py''],
             ''K = 1'' @ nl @ nl @ nl @ ''def foo():'' @ nl @ ''    return K'')]
   \<and> enqueue_imports demo_fs demo_dir
         {demo_dir @ [''start.py''], demo_dir @ [''a.py''], demo_dir @ [''c.py'']}
         (parse_imports_with_names demo_fs (demo_dir @ [''c.py'']))
         [(demo_dir @ [''x.py''], [''foo''])]
       = [(demo_dir @ [''x.py''], [''foo'']), (demo_dir @ [''x.py''], [''bar''])]
   \<and> extract_file demo_fs (demo_dir @ [''x.py'']) [''foo'', ''bar''] =
       Inr (''K = 1'' @ nl @ nl @ nl @ ''def foo():'' @ nl @ ''    return K''
            @ nl @ nl @ nl @ ''def bar():'' @ nl @ ''    return 2'')"
  by code_simp

text \<open>
  C2, amended. A newly arriving request is appended to the queue as an entry of its own
  and leaves every queued entry as it is; the name list used when a file is first
  dequeued is that of its earliest queued request alone, and the later ones are
  discarded.
\<close>

theorem first_request_used_unmerged:
  assumes "extract_loop fs project_dir exclude_patterns (q1 @ (X, names) # q2) processed
             extracted_code = Inr final_code"
    and "X \<notin> fst ` set q1" and "X \<notin> processed"
    and "\<not> should_exclude exclude_patterns X"
  shows "enqueue_imports fs project_dir processed' imps q =
           q @ enqueue_imports fs project_dir processed' imps []
         \<and> (\<exists>code. extract_file fs X names = Inr code \<and> map_of final_code X = Some code)"
  using first_request_decides [OF assms]
    enqueue_imports_append [of fs project_dir processed' imps q "[]"]
  by simp

theorem first_request_used_unmerged_witness:
  "extract_loop demo_fs demo_dir []
     ([] @ (demo_dir @ [''x.py''], [''foo'']) # [(demo_dir @ [''x.py''], [''bar''])])
     {demo_dir @ [''start.py''], demo_dir @ [''a.py''], demo_dir @ [''c.py'']}
     [(demo_dir @ [''start.py''], ''import a'' @ nl @ ''import c'' @ nl),
      (demo_dir @ [''a.py''], ''from x import foo'' @ nl),
      (demo_dir @ [''c.py''], ''from x import bar'' @ nl)]
   = Inr [(demo_dir @ [''start.py''], ''import a'' @ nl @ ''import c'' @ nl),
          (demo_dir @ [''a.py''], ''from x import foo'' @ nl),
          (demo_dir @ [''c.py''], ''from x import bar'' @ nl),
          (demo_dir @ [''x.py''],
             ''K = 1'' @ nl @ nl @ nl @ ''def foo():'' @ nl @ ''    return K'')]
   \<and> demo_dir @ [''x.py''] \<notin> fst ` set ([] :: request list)
   \<and> demo_dir @ [''x.py'']
       \<notin> {demo_dir @ [''start.py''], demo_dir @ [''a.py''], demo_dir @ [''c.py'']}
   \<and> \<not> should_exclude [] (demo_dir @ [''x.py''])
   \<and> enqueue_imports demo_fs demo_dir
         {demo_dir @ [''start.py''], demo_dir @ [''a.py''], demo_dir @ [''c.py'']}
         [(''x'', [''bar''])] [(demo_dir @ [''x.py''], [''foo''])]
       = [(demo_dir @ [''x.py''], [''foo''])]
         @ enqueue_imports demo_fs demo_dir
             {demo_dir @ [''start.py''], demo_dir @ [''a.py''], demo_dir @ [''c.py'']}
             [(''x'', [''bar''])] []
   \<and> (\<exists>code. extract_file demo_fs (demo_dir @ [''x.py'']) [''foo''] = Inr code
         \<and> map_of [(demo_dir @ [''start.py''], ''import a'' @ nl @ ''import c'' @ nl),
                    (demo_dir @ [''a.py''], ''from x import foo'' @ nl),
                    (demo_dir @ [''c.py''], ''from x import bar'' @ nl),
                    (demo_dir @ [''x.py''],
                       ''K = 1'' @ nl @ nl @ nl @ ''def foo():'' @ nl @ ''    return K'')]
               (demo_dir @ [''x.py'']) = Some code)"
proof -
  have run: "extract_loop demo_fs demo_dir []
     ([] @ (demo_dir @ [''x.py''], [''foo'']) # [(demo_dir @ [''x.py''], [''bar''])])
     {demo_dir @ [''start.py''], demo_dir @ [''a.py''], demo_dir @ [''c.py'']}
     [(demo_dir @ [''start.py''], ''import a'' @ nl @ ''import c'' @ nl),
      (demo_dir @ [''a.py''], ''from x import foo'' @ nl),
      (demo_dir @ [''c.py''], ''from x import bar'' @ nl)]
   = Inr [(demo_dir @ [''start.py''], ''import a'' @ nl @ ''import c'' @ nl),
          (demo_dir @ [''a.py''], ''from x import foo'' @ nl),
          (demo_dir @ [''c.py''], ''from x import bar'' @ nl),
          (demo_dir @ [''x.py''],
             ''K = 1'' @ nl @ nl @ nl @ ''def foo():'' @ nl @ ''    return K'')]"
    by code_simp
  have h2: "demo_dir @ [''x.py''] \<notin> fst ` set ([] :: request list)"
    by simp
  have h3: "demo_dir @ [''x.py'']
       \<notin> {demo_dir @ [''start.py''], demo_dir @ [''a.py''], demo_dir @ [''c.py'']}"
    by simp
  have h4: "\<not> should_exclude [] (demo_dir @ [''x.py''])"
    by (simp add: should_exclude_def)
  from first_request_used_unmerged [OF run h2 h3 h4,
      of "{demo_dir @ [''start.py''], demo_dir @ [''a.py''], demo_dir @ [''c.py'']}"
         "[(''x'', [''bar''])]" "[(demo_dir @ [''x.py''], [''foo''])]"]
    run h2 h3 h4
  show ?thesis by simp
qed

section \<open>The whole run\<close>

lemma write_tree_empty: "write_tree [] pfx = []"
  by (simp add: write_tree.simps sort_items_def)

lemma print_tree_empty: "print_tree [] pfx m = Inr []"
  by (simp add: print_tree.simps sort_items_def)

text \<open>
  C9 (an excluded entry is not an error). If the path of the entry file lies under the
  project directory, so that \<^verbatim>\<open>entry_file.relative_to(project_dir)\<close> returns, and
  contains one of the exclude patterns, \<^verbatim>\<open>extract_used_code\<close> completes without
  raising, whatever the file system holds: nothing is discovered,
  nothing is extracted, and the artifact is written with a header that reports 0 files,
  no tree line and no code section.
\<close>

theorem excluded_entry_completes:
  assumes "should_exclude exclude_patterns entry_file"
    and "relative_to entry_file project_dir = Inr rel_path"
  shows "discover_files fs project_dir entry_file exclude_patterns = []
       \<and> extraction_phase fs project_dir entry_file exclude_patterns = Inr []
       \<and> extract_used_code fs project_dir entry_file exclude_patterns =
           \<lparr>artifact = Some [replicate 80 CHR ''='' @ nl,
                              ''EXTRACTED FILES SUMMARY'' @ nl,
                              replicate 80 CHR ''='' @ nl @ nl,
                              ''Total Files: 0'' @ nl,
                              ''Project Root: '' @ path_str project_dir @ nl @ nl,
                              ''Directory Tree Structure:'' @ nl,
                              folder_icon @ '' '' @ path_name project_dir @ ''/'' @ nl,
                              nl @ replicate 80 CHR ''='' @ nl @ nl],
             raised = None\<rparr>"
proof -
  have d: "discover_files fs project_dir entry_file exclude_patterns = []"
    using assms(1) by (simp add: discover_files_def)
  have e: "extraction_phase fs project_dir entry_file exclude_patterns = Inr []"
    using assms by (simp add: extraction_phase_def)
  have zero: "show_nat 0 = ''0''"
    by code_simp
  show ?thesis
    using d e zero
    by (simp add: extract_used_code_def print_directory_structure_def build_tree_structure_def
        print_tree_empty print_file_locations_def write_header_def write_tree_empty)
qed

theorem excluded_entry_completes_witness:
  "should_exclude [''main''] (demo_dir @ [''main.py''])
   \<and> relative_to (demo_dir @ [''main.py'']) demo_dir = Inr [''main.py'']
   \<and> discover_files demo_fs demo_dir (demo_dir @ [''main.py'']) [''main''] = []
   \<and> extraction_phase demo_fs demo_dir (demo_dir @ [''main.py'']) [''main''] = Inr []
   \<and> extract_used_code demo_fs demo_dir (demo_dir @ [''main.py'']) [''main''] =
       \<lparr>artifact = Some [replicate 80 CHR ''='' @ nl,
                          ''EXTRACTED FILES SUMMARY'' @ nl,
                          replicate 80 CHR ''='' @ nl @ nl,
                          ''Total Files: 0'' @ nl,
                          ''Project Root: '' @ path_str demo_dir @ nl @ nl,
                          ''Directory Tree Structure:'' @ nl,
                          folder_icon @ '' '' @ path_name demo_dir @ ''/'' @ nl,
                          nl @ replicate 80 CHR ''='' @ nl @ nl],
         raised = None\<rparr>"
proof -
  have excluded: "should_exclude [''main''] (demo_dir @ [''main.py''])"
    by code_simp
  have under: "relative_to (demo_dir @ [''main.py'']) demo_dir = Inr [''main.py'']"
    by code_simp
  from excluded_entry_completes [OF excluded under, of demo_fs] excluded under
  show ?thesis by simp
qed

text \<open>
  C7 (fatal entry path), as stated: a run on an entry path that does not exist aborts
  before the artifact is created. It fails when the missing path lies under the project
  directory and matches an exclude pattern: the exclusion test comes before any access to
  the file, and the run completes and writes the artifact for 0 files.
\<close>

theorem missing_entry_counterexample:
  "\<not> exists demo_fs (demo_dir @ [''cache'', ''ghost.py''])
   \<and> extract_used_code demo_fs demo_dir (demo_dir @ [''cache'', ''ghost.py'']) [''cache''] =
       \<lparr>artifact = Some [replicate 80 CHR ''='' @ nl,
                          ''EXTRACTED FILES SUMMARY'' @ nl,
                          replicate 80 CHR ''='' @ nl @ nl,
                          ''Total Files: 0'' @ nl,
                          ''Project Root: /proj'' @ nl @ nl,
                          ''Directory Tree Structure:'' @ nl,
                          folder_icon @ '' proj/'' @ nl,
                          nl @ replicate 80 CHR ''='' @ nl @ nl],
         raised = None\<rparr>"
  by code_simp

text \<open>
  C7, amended. If the entry path does not exist and matches no exclude pattern, the run
  ends with an exception and the output file is never opened.
\<close>

theorem missing_entry_aborts:
  assumes "\<not> exists fs entry_file"
    and "\<not> should_exclude exclude_patterns entry_file"
  shows "raised (extract_used_code fs project_dir entry_file exclude_patterns) \<noteq> None
       \<and> artifact (extract_used_code fs project_dir entry_file exclude_patterns) = None"
proof -
  have "read_file fs entry_file = Inl FileNotFoundError"
    using assms(1) by (simp add: read_file_def exists_def)
  then have "\<exists>e. extraction_phase fs project_dir entry_file exclude_patterns = Inl e"
    using assms(2)
    by (simp add: extraction_phase_def extract_file_def split: sum.splits)
  then show ?thesis
    by (auto simp: extract_used_code_def aborted_def Let_def split: sum.splits)
qed

theorem missing_entry_aborts_witness:
  "\<not> exists demo_fs (demo_dir @ [''ghost.py''])
   \<and> \<not> should_exclude [''cache''] (demo_dir @ [''ghost.py''])
   \<and> raised (extract_used_code demo_fs demo_dir (demo_dir @ [''ghost.py'']) [''cache'']) \<noteq> None
   \<and> artifact (extract_used_code demo_fs demo_dir (demo_dir @ [''ghost.py'']) [''cache'']) = None"
proof -
  have missing: "\<not> exists demo_fs (demo_dir @ [''ghost.py''])"
    by code_simp
  have kept: "\<not> should_exclude [''cache''] (demo_dir @ [''ghost.py''])"
    by code_simp
  from missing_entry_aborts [OF missing kept, of demo_dir] missing kept
  show ?thesis by simp
qed

section \<open>The rendered tree\<close>

lemma level_entries_append:
  "level_entries p (xs @ ys) = level_entries p xs @ level_entries p ys"
  by (induction p xs rule: level_entries.induct) simp_all

lemma level_entries_concat:
  "level_entries p (concat xss) = concat (map (level_entries p) xss)"
  by (induction xss) (simp_all add: level_entries_append)

lemma level_entries_deeper:
  "\<forall>l \<in> set ls. prefix (p @ e) (line_pfx l) \<Longrightarrow> e \<noteq> [] \<Longrightarrow> level_entries p ls = []"
proof (induction p ls rule: level_entries.induct)
  case (2 pfx p c f name ls)
  then show ?case by auto
qed simp_all

lemma write_tree_prefixes: "l \<in> set (write_tree t p) \<Longrightarrow> prefix p (line_pfx l)"
proof (induction t p arbitrary: l rule: write_tree.induct)
  case (1 t p)
  from "1.prems" obtain idx name data
    where mem: "(idx, name, data) \<in> set (enumerate 0 (sort_items t))"
      and l: "l = Entry p (if idx = length (sort_items t) - 1 then last_connector else mid_connector)
                    (is_file data) name
              \<or> (\<not> is_file data \<and> l \<in> set (write_tree (children data)
                    (p @ (if idx = length (sort_items t) - 1 then last_extension else mid_extension))))"
    by (auto simp: write_tree.simps [of t p] Let_def split: if_splits)
  from l show ?case
  proof
    assume "l = Entry p (if idx = length (sort_items t) - 1 then last_connector else mid_connector)
                    (is_file data) name"
    then show ?thesis by simp
  next
    assume sub: "\<not> is_file data \<and> l \<in> set (write_tree (children data)
                    (p @ (if idx = length (sort_items t) - 1 then last_extension else mid_extension)))"
    then have "prefix (p @ (if idx = length (sort_items t) - 1 then last_extension else mid_extension))
                 (line_pfx l)"
      using "1.IH" [OF refl mem refl refl refl refl refl] by blast
    then show ?thesis by (meson append_prefixD)
  qed
qed

lemma concat_singletons_enumerate:
  "concat (map (\<lambda>(i, x). [h x]) (enumerate k xs)) = map h xs"
  by (induction xs arbitrary: k) simp_all

lemma write_tree_deeper: "e \<noteq> [] \<Longrightarrow> level_entries p (write_tree t (p @ e)) = []"
  using write_tree_prefixes level_entries_deeper by blast

lemma extensions_nonempty: "last_extension \<noteq> []" "mid_extension \<noteq> []"
  by (simp_all add: last_extension_def mid_extension_def)

lemma write_tree_level:
  "level_entries p (write_tree t p) = map (\<lambda>(name, data). (is_file data, name)) (sort_items t)"
proof -
  have "level_entries p (write_tree t p) =
        concat (map (\<lambda>(idx, x). [(\<lambda>(name, data). (is_file data, name)) x])
                  (enumerate 0 (sort_items t)))"
    apply (subst write_tree.simps)
    apply (simp only: Let_def level_entries_concat map_map)
    apply (rule arg_cong [where f = concat])
    apply (rule map_cong [OF refl])
    apply (auto simp: write_tree_deeper extensions_nonempty)
    done
  then show ?thesis
    by (simp only: concat_singletons_enumerate)
qed

lemma sorted_items_listed:
  "sorted_wrt listed_before (map (\<lambda>(name, data). (is_file data, name)) (sort_items t))"
proof -
  have "sorted (map (\<lambda>x. (\<not> is_file (snd x), fst x)) (sort_items t))"
    unfolding sort_items_def by (rule sorted_sort_key)
  then have "sorted_wrt (\<lambda>x y. (\<not> is_file (snd x), fst x) \<le> (\<not> is_file (snd y), fst y)) (sort_items t)"
    by (simp add: sorted_map)
  then have "sorted_wrt (\<lambda>x y. listed_before (is_file (snd x), fst x) (is_file (snd y), fst y)) (sort_items t)"
    by (rule sorted_wrt_mono_rel [rotated]) (auto simp: listed_before_def less_eq_prod_def)
  then show ?thesis
    by (simp add: sorted_wrt_map case_prod_beta)
qed


lemma collect_member:
  "collect rs = Inr ls \<Longrightarrow> l \<in> set ls \<Longrightarrow> \<exists>xs. Inr xs \<in> set rs \<and> l \<in> set xs"
proof (induction rs arbitrary: ls)
  case Nil
  then show ?case by simp
next
  case (Cons r rs)
  from Cons.prems obtain ys zs where r: "r = Inr ys" and zs: "collect rs = Inr zs"
    and ls: "ls = ys @ zs"
    by (auto split: sum.splits)
  show ?case
  proof (cases "l \<in> set ys")
    case True
    with r show ?thesis by auto
  next
    case False
    with Cons.prems(2) ls have "l \<in> set zs" by simp
    from Cons.IH [OF zs this] show ?thesis by auto
  qed
qed

lemma collect_level:
  assumes "collect (map g xs) = Inr ls"
    and "\<And>x ys. x \<in> set xs \<Longrightarrow> g x = Inr ys \<Longrightarrow> level_entries p ys = [h x]"
  shows "level_entries p ls = map h xs"
  using assms
proof (induction xs arbitrary: ls)
  case Nil
  then show ?case by simp
next
  case (Cons x xs)
  from Cons.prems(1) obtain ys zs where ys: "g x = Inr ys" and zs: "collect (map g xs) = Inr zs"
    and ls: "ls = ys @ zs"
    by (auto split: sum.splits)
  have "level_entries p zs = map h xs"
    using Cons.IH [OF zs] Cons.prems(2) by simp
  moreover have "level_entries p ys = [h x]"
    using Cons.prems(2) [of x ys] ys by simp
  ultimately show ?case using ls by (simp add: level_entries_append)
qed

lemma truncated_prefixes:
  "truncated_lines q m kids = Inr ls \<Longrightarrow> l \<in> set ls \<Longrightarrow> line_pfx l = q"
  by (auto simp: truncated_lines_def Let_def split: if_splits)

lemma print_tree_prefixes:
  "print_tree t p m = Inr ls \<Longrightarrow> l \<in> set ls \<Longrightarrow> prefix p (line_pfx l)"
proof (induction t p m arbitrary: ls l rule: print_tree.induct)
  case (1 t p m)
  let ?items = "sort_items t"
  from "1.prems" obtain x xs where x: "x \<in> set (enumerate 0 ?items)"
    and l: "l \<in> set xs"
    and gx: "(case x of (idx, name, data) \<Rightarrow>
               let is_last_item = (idx = length ?items - 1);
                   connector = (if is_last_item then last_connector else mid_connector);
                   extension = (if is_last_item then last_extension else mid_extension)
               in if is_file data then Inr [Entry p connector True name]
                  else (let child_count = length (children data)
                        in case (if child_count > m
                                 then truncated_lines (p @ extension) m (children data)
                                 else print_tree (children data) (p @ extension) m) of
                             Inl e \<Rightarrow> Inl e
                           | Inr ls \<Rightarrow> Inr (Entry p connector False name # ls))) = Inr xs"
    by (subst (asm) print_tree.simps) (auto simp: Let_def dest!: collect_member)
  obtain idx name data where xeq: "x = (idx, name, data)" by (cases x)
  let ?ext = "if idx = length ?items - 1 then last_extension else mid_extension"
  show ?case
  proof (cases "is_file data")
    case True
    with gx xeq l show ?thesis by (auto simp: Let_def)
  next
    case dir: False
    show ?thesis
    proof (cases "length (children data) > m")
      case True
      with gx xeq l dir obtain sub where "truncated_lines (p @ ?ext) m (children data) = Inr sub"
        and "l = Entry p (if idx = length ?items - 1 then last_connector else mid_connector) False name
             \<or> l \<in> set sub"
        by (auto simp: Let_def split: sum.splits)
      then show ?thesis
        using truncated_prefixes [of "p @ ?ext" m "children data" sub l] by auto
    next
      case False
      with gx xeq l dir obtain sub where sub: "print_tree (children data) (p @ ?ext) m = Inr sub"
        and "l = Entry p (if idx = length ?items - 1 then last_connector else mid_connector) False name
             \<or> l \<in> set sub"
        by (auto simp: Let_def split: sum.splits)
      then show ?thesis
        using "1.IH" [OF refl x [unfolded xeq] refl refl refl refl refl dir refl False sub, of l]
        by (auto dest: append_prefixD)
    qed
  qed
qed

lemma print_tree_level:
  assumes "print_tree t p m = Inr ls"
  shows "level_entries p ls = map (\<lambda>(name, data). (is_file data, name)) (sort_items t)"
proof -
  let ?items = "sort_items t"
  let ?g = "\<lambda>(idx, name, data).
               let is_last_item = (idx = length ?items - 1);
                   connector = (if is_last_item then last_connector else mid_connector);
                   extension = (if is_last_item then last_extension else mid_extension)
               in if is_file data then Inr [Entry p connector True name]
                  else (let child_count = length (children data)
                        in case (if child_count > m
                                 then truncated_lines (p @ extension) m (children data)
                                 else print_tree (children data) (p @ extension) m) of
                             Inl e \<Rightarrow> Inl e
                           | Inr ls \<Rightarrow> Inr (Entry p connector False name # ls))"
  have c: "collect (map ?g (enumerate 0 ?items)) = Inr ls"
    using assms by (subst (asm) print_tree.simps) (simp add: Let_def)
  have each: "level_entries p ys = [(\<lambda>(idx, name, data). (is_file data, name)) x]"
    if "?g x = Inr ys" for x ys
  proof -
    obtain idx name data where xeq: "x = (idx, name, data)" by (cases x)
    let ?ext = "if idx = length ?items - 1 then last_extension else mid_extension"
    have ne: "?ext \<noteq> []" by (simp add: extensions_nonempty)
    show ?thesis
    proof (cases "is_file data")
      case True
      with that xeq show ?thesis by (auto simp: Let_def)
    next
      case dir: False
      with that xeq obtain sub where ys: "ys = Entry p (if idx = length ?items - 1 then last_connector else mid_connector) False name # sub"
        and sub: "(if length (children data) > m
                   then truncated_lines (p @ ?ext) m (children data)
                   else print_tree (children data) (p @ ?ext) m) = Inr sub"
        by (auto simp: Let_def simp del: One_nat_def split: sum.splits)
      have "\<forall>l \<in> set sub. prefix (p @ ?ext) (line_pfx l)"
        using sub truncated_prefixes [of "p @ ?ext" m "children data" sub]
          print_tree_prefixes [of "children data" "p @ ?ext" m sub]
        by (auto split: if_splits)
      then have "level_entries p sub = []"
        using ne by (rule level_entries_deeper)
      then show ?thesis using ys xeq dir by simp
    qed
  qed
  have "level_entries p ls = map (\<lambda>(idx, name, data). (is_file data, name)) (enumerate 0 ?items)"
    using c each by (rule collect_level)
  also have "\<dots> = map ((\<lambda>(name, data). (is_file data, name)) \<circ> snd) (enumerate 0 ?items)"
    by (simp add: case_prod_beta comp_def)
  also have "\<dots> = map (\<lambda>(name, data). (is_file data, name)) ?items"
    by (simp only: map_map [symmetric] map_snd_enumerate)
  finally show ?thesis .
qed

text \<open>
  C6 (manifest tree ordering), as stated: at every level directories come first, then
  files. The tree built for \<^verbatim>\<open>a/x.py\<close> and \<^verbatim>\<open>b.py\<close> refutes it: both renderers list
  the file \<^verbatim>\<open>b.py\<close> before the directory \<^verbatim>\<open>a\<close>, since the sort key
  \<^verbatim>\<open>not _is_file\<close> is \<open>False\<close> for a file.
\<close>

theorem tree_ordering_counterexample:
  "build_tree_structure [demo_dir @ [''a'', ''x.py''], demo_dir @ [''b.py'']] demo_dir
     = Inr demo_tree
   \<and> write_tree demo_tree [] =
       [Entry [] mid_connector True ''b.py'',
        Entry [] last_connector False ''a'',
        Entry last_extension last_connector True ''x.py'']
   \<and> print_tree demo_tree [] 8 =
       Inr [Entry [] mid_connector True ''b.py'',
            Entry [] last_connector False ''a'',
            Entry last_extension last_connector True ''x.py'']"
  by code_simp

text \<open>
  C6, amended. For every dictionary and prefix, hence at every level that
  \<^verbatim>\<open>write_tree\<close> or \<^verbatim>\<open>print_tree\<close> renders by a call of its own, the entries written
  at that level are all the items of the dictionary, ordered files first, then
  directories, each group by ascending name. (The children that \<^verbatim>\<open>print_tree\<close> lists
  inside a truncated directory are written by the parent call, in insertion order.)
\<close>

theorem tree_levels_files_first:
  "mset (level_entries pfx (write_tree tree pfx))
     = mset (map (\<lambda>(name, data). (is_file data, name)) tree)
   \<and> sorted_wrt listed_before (level_entries pfx (write_tree tree pfx))
   \<and> (print_tree tree pfx max_files_per_dir = Inr lines \<longrightarrow>
        level_entries pfx lines = level_entries pfx (write_tree tree pfx))"
proof -
  have "mset (sort_items tree) = mset tree"
    by (simp add: sort_items_def)
  then have "mset (map (\<lambda>(name, data). (is_file data, name)) (sort_items tree))
             = mset (map (\<lambda>(name, data). (is_file data, name)) tree)"
    by (metis mset_map)
  then show ?thesis
    using write_tree_level [of pfx tree] sorted_items_listed [of tree]
      print_tree_level [of tree pfx max_files_per_dir lines]
    by simp
qed

theorem tree_levels_files_first_witness:
  "mset (level_entries [] (write_tree demo_tree []))
     = mset (map (\<lambda>(name, data). (is_file data, name)) demo_tree)
   \<and> sorted_wrt listed_before (level_entries [] (write_tree demo_tree []))
   \<and> print_tree demo_tree [] 8 =
       Inr [Entry [] mid_connector True ''b.py'',
            Entry [] last_connector False ''a'',
            Entry last_extension last_connector True ''x.py'']
   \<and> level_entries [] [Entry [] mid_connector True ''b.py'',
                         Entry [] last_connector False ''a'',
                         Entry last_extension last_connector True ''x.py'']
       = level_entries [] (write_tree demo_tree [])"
proof -
  have run: "print_tree demo_tree [] 8 =
       Inr [Entry [] mid_connector True ''b.py'',
            Entry [] last_connector False ''a'',
            Entry last_extension last_connector True ''x.py'']"
    by code_simp
  from tree_levels_files_first [of "[]" demo_tree 8
      "[Entry [] mid_connector True ''b.py'',
        Entry [] last_connector False ''a'',
        Entry last_extension last_connector True ''x.py'']"] run
  show ?thesis by simp
qed

section \<open>Partial extraction\<close>

lemma split_on_nonempty: "split_on c s \<noteq> []"
  by (induction s) (auto split: list.splits)

lemma split_on_takeWhile:
  "split_on c s = takeWhile (\<lambda>x. x \<noteq> c) s
                  # (case dropWhile (\<lambda>x. x \<noteq> c) s of [] \<Rightarrow> [] | x # r \<Rightarrow> split_on c r)"
proof (induction s)
  case Nil
  then show ?case by simp
next
  case (Cons x s)
  then show ?case
    using split_on_nonempty [of c s] by (auto split: list.splits)
qed

lemma split_on_absent: "c \<notin> set s \<Longrightarrow> split_on c s = [s]"
  by (induction s) auto

lemma lf_lines_empty: "lf_lines [] = []"
  by (simp add: lf_lines_def)

lemma lf_lines_rec:
  assumes "s \<noteq> []"
  shows "lf_lines s = takeWhile (\<lambda>x. x \<noteq> CHR 0x0A) s
                      # lf_lines (tl (dropWhile (\<lambda>x. x \<noteq> CHR 0x0A) s))"
proof (cases "dropWhile (\<lambda>x. x \<noteq> CHR 0x0A) s")
  case Nil
  then have absent: "CHR 0x0A \<notin> set s" by auto
  then have tw: "takeWhile (\<lambda>x. x \<noteq> CHR 0x0A) s = s" by (induction s) auto
  have "lf_lines s = [s]"
    using assms by (simp add: lf_lines_def split_on_absent [OF absent])
  then show ?thesis
    unfolding tw Nil by (simp add: lf_lines_empty)
next
  case (Cons x r)
  have ne: "split_on CHR 0x0A r \<noteq> []" by (rule split_on_nonempty)
  have s: "split_on CHR 0x0A s = takeWhile (\<lambda>x. x \<noteq> CHR 0x0A) s # split_on CHR 0x0A r"
    by (subst split_on_takeWhile) (simp add: Cons)
  have "lf_lines s = takeWhile (\<lambda>x. x \<noteq> CHR 0x0A) s # lf_lines r"
    using ne unfolding lf_lines_def s by (simp add: Let_def)
  then show ?thesis
    unfolding Cons by simp
qed

lemma line_break_lf: "line_break (CHR 0x0A # cs) = 1"
  by (simp add: line_break_def)

lemma take_line_lf_only:
  "lf_only s \<Longrightarrow>
   take_line s = (takeWhile (\<lambda>x. x \<noteq> CHR 0x0A) s, tl (dropWhile (\<lambda>x. x \<noteq> CHR 0x0A) s))"
proof (induction s)
  case Nil
  then show ?case by simp
next
  case (Cons c cs)
  show ?case
  proof (cases "c = CHR 0x0A")
    case True
    then show ?thesis by (simp add: line_break_lf)
  next
    case False
    with Cons.prems have "line_break (c # cs) = 0" and "lf_only cs" by simp_all
    with Cons.IH False show ?thesis by simp
  qed
qed

lemma lf_only_tl: "lf_only s \<Longrightarrow> lf_only (tl s)"
  by (cases s) simp_all

lemma lf_only_dropWhile: "lf_only s \<Longrightarrow> lf_only (dropWhile P s)"
  by (induction s) simp_all

lemma splitlines_lf_only: "lf_only s \<Longrightarrow> splitlines s = lf_lines s"
proof (induction s rule: splitlines.induct)
  case (1 s)
  show ?case
  proof (cases "s = []")
    case True
    then show ?thesis by (simp add: splitlines.simps lf_lines_def)
  next
    case False
    let ?r = "tl (dropWhile (\<lambda>x. x \<noteq> CHR 0x0A) s)"
    have tl: "take_line s = (takeWhile (\<lambda>x. x \<noteq> CHR 0x0A) s, ?r)"
      using "1.prems" by (rule take_line_lf_only)
    have "lf_only ?r"
      using "1.prems" by (intro lf_only_tl lf_only_dropWhile)
    then have "splitlines (snd (take_line s)) = lf_lines ?r"
      using "1.IH" [OF False] tl by simp
    then have "splitlines s = takeWhile (\<lambda>x. x \<noteq> CHR 0x0A) s # lf_lines ?r"
      using False tl by (subst splitlines.simps) simp
    then show ?thesis
      using lf_lines_rec [OF False] by simp
  qed
qed


lemma fold_globals:
  "fold (\<lambda>n globals_code. if is_global n then globals_code @ f n else globals_code) body acc
   = acc @ concat (map f (filter is_global body))"
  by (induction body arbitrary: acc) simp_all

lemma get_global_text:
  assumes "read_and_parse fs X = Some (content, body)" and "lf_only content"
  shows "get_global_variables fs X = prologue_text content body"
proof -
  have "source_lines content
        = (\<lambda>n. slice (lf_lines content) (fst (node_span n)) (snd (node_span n)))"
    by (simp add: source_lines_def fun_eq_iff)
  then show ?thesis
    using assms
    by (simp add: get_global_variables_def prologue_text_def fold_globals splitlines_lf_only)
qed

lemma extract_def_text:
  assumes "read_and_parse fs X = Some (content, body)" and "lf_only content"
  shows "extract_function_or_class fs X name
         = map_option (definition_text content) (find (is_def name) (walk [Other body]))"
  using assms
  by (simp add: extract_function_or_class_def definition_text_def source_lines_def
      splitlines_lf_only split: option.splits)

lemma requested_defs_Cons:
  "requested_defs body (name # names) =
     (case find (is_def name) (walk [Other body]) of
        None \<Rightarrow> requested_defs body names
      | Some n \<Rightarrow> n # requested_defs body names)"
  by (simp add: requested_defs_def map_filter_simps split: option.splits)

lemma extract_names_defs:
  assumes "read_and_parse fs X = Some (content, body)" and "lf_only content"
    and "''*'' \<notin> set names"
  shows "extract_names fs X names parts
         = parts @ map (\<lambda>n. nl @ definition_text content n)
                     (filter (\<lambda>n. definition_text content n \<noteq> []) (requested_defs body names))"
  using assms(3)
proof (induction names arbitrary: parts)
  case Nil
  then show ?case by (simp add: extract_names_def requested_defs_def map_filter_simps)
next
  case (Cons name names)
  from Cons.prems have name: "name \<noteq> ''*''" and rest: "''*'' \<notin> set names" by auto
  have step: "extract_names fs X (name # names) parts =
        extract_names fs X names
          (case find (is_def name) (walk [Other body]) of
             None \<Rightarrow> parts
           | Some n \<Rightarrow> if definition_text content n = [] then parts
                       else parts @ [nl @ definition_text content n])"
    using name
    by (simp add: extract_names_def extract_def_text [OF assms(1,2)] split: option.splits)
  show ?case
    unfolding step using Cons.IH [OF rest]
    by (simp add: requested_defs_Cons split: option.splits)
qed

lemma split_on_append: "split_on c (xs @ c # ys) = split_on c xs @ split_on c ys"
proof (induction xs)
  case Nil
  then show ?case by simp
next
  case (Cons x xs)
  then show ?case
    using split_on_nonempty [of c xs] by (auto split: list.splits)
qed

lemma split_on_no_sep: "w \<in> set (split_on c s) \<Longrightarrow> c \<notin> set w"
proof (induction s arbitrary: w)
  case Nil
  then show ?case by simp
next
  case (Cons x s)
  then show ?case
    by (auto split: if_splits list.splits)
qed

lemma lf_lines_no_lf: "l \<in> set (lf_lines s) \<Longrightarrow> CHR 0x0A \<notin> set l"
  by (auto simp: lf_lines_def Let_def dest: split_on_no_sep in_set_butlastD split: if_splits)

lemma source_lines_no_lf: "l \<in> set (source_lines content n) \<Longrightarrow> CHR 0x0A \<notin> set l"
  unfolding source_lines_def slice_def
  by (meson in_set_dropD in_set_takeD lf_lines_no_lf)

lemma split_join_lines:
  "\<forall>l \<in> set ls. CHR 0x0A \<notin> set l \<Longrightarrow>
   set (split_on CHR 0x0A (join nl ls)) \<subseteq> insert [] (set ls)"
proof (induction ls)
  case Nil
  then show ?case by simp
next
  case (Cons x ls)
  show ?case
  proof (cases ls)
    case Nil
    with Cons.prems show ?thesis by (simp add: split_on_absent)
  next
    case (Cons y ys)
    then have "join nl (x # ls) = x @ CHR 0x0A # join nl ls"
      by (simp add: nl_def)
    then show ?thesis
      using Cons.IH Cons.prems by (auto simp: split_on_append split_on_absent)
  qed
qed

lemma split_join_parts:
  "set (split_on CHR 0x0A (join (nl @ nl) parts))
   \<subseteq> insert [] (\<Union>P \<in> set parts. set (split_on CHR 0x0A P))"
proof (induction parts)
  case Nil
  then show ?case by simp
next
  case (Cons x parts)
  show ?case
  proof (cases parts)
    case Nil
    then show ?thesis by auto
  next
    case (Cons y ys)
    then have "join (nl @ nl) (x # parts)
               = x @ CHR 0x0A # (CHR 0x0A # join (nl @ nl) parts)"
      by (simp add: nl_def)
    then show ?thesis
      using Cons.IH by (auto simp: split_on_append)
  qed
qed

lemma entry_lines_selected:
  assumes "l \<in> set (split_on CHR 0x0A
             (join (nl @ nl)
                ((if prologue_text content body = [] then [] else [prologue_text content body])
                 @ map (\<lambda>n. nl @ definition_text content n) defs)))"
  shows "l = [] \<or> (\<exists>n \<in> set (filter is_global body) \<union> set defs. l \<in> set (source_lines content n))"
proof -
  let ?parts = "(if prologue_text content body = [] then [] else [prologue_text content body])
                 @ map (\<lambda>n. nl @ definition_text content n) defs"
  from assms split_join_parts [of ?parts]
  have "l = [] \<or> (\<exists>P \<in> set ?parts. l \<in> set (split_on CHR 0x0A P))"
    by blast
  then show ?thesis
  proof
    assume "l = []"
    then show ?thesis ..
  next
    assume "\<exists>P \<in> set ?parts. l \<in> set (split_on CHR 0x0A P)"
    then obtain P where P: "P \<in> set ?parts" and l: "l \<in> set (split_on CHR 0x0A P)"
      by blast
    from P have "P = prologue_text content body \<or> (\<exists>n \<in> set defs. P = nl @ definition_text content n)"
      by (auto split: if_splits)
    then show ?thesis
    proof
      assume "P = prologue_text content body"
      with l have "l \<in> set (split_on CHR 0x0A
                      (join nl (concat (map (source_lines content) (filter is_global body)))))"
        by (simp add: prologue_text_def)
      moreover have "\<forall>l \<in> set (concat (map (source_lines content) (filter is_global body))).
                       CHR 0x0A \<notin> set l"
        by (auto dest: source_lines_no_lf)
      ultimately have "l \<in> insert [] (set (concat (map (source_lines content)
                                                     (filter is_global body))))"
        using split_join_lines by blast
      then show ?thesis by auto
    next
      assume "\<exists>n \<in> set defs. P = nl @ definition_text content n"
      then obtain n where n: "n \<in> set defs" and Pn: "P = nl @ definition_text content n"
        by blast
      from l Pn have "l \<in> set ([] # split_on CHR 0x0A (join nl (source_lines content n)))"
        by (simp add: nl_def definition_text_def)
      moreover have "\<forall>l \<in> set (source_lines content n). CHR 0x0A \<notin> set l"
        by (auto dest: source_lines_no_lf)
      ultimately have "l \<in> insert [] (set (source_lines content n))"
        using split_join_lines [of "source_lines content n"] by auto
      with n show ?thesis by auto
    qed
  qed
qed

text \<open>
  C5 (partial extraction), as stated: the entry of a file requested by name never
  contains the body of a definition \<open>bar\<close> that is not requested. It fails when
  \<open>bar\<close> lies inside the requested definition: \<^verbatim>\<open>nested.py\<close> defines the class
  \<open>foo\<close> with the method \<open>bar\<close>; the request \<open>[foo]\<close> cuts the lines of \<open>foo\<close>, and
  the body that \<^verbatim>\<open>extract_function_or_class\<close> finds for \<open>bar\<close> is part of them.
\<close>

theorem partial_extraction_counterexample:
  "extraction_phase nested_fs demo_dir (demo_dir @ [''app.py'']) [] =
     Inr [(demo_dir @ [''app.py''], ''from nested import foo'' @ nl),
          (demo_dir @ [''nested.py''],
             nl @ ''class foo:'' @ nl @ ''    def bar(self):'' @ nl @ ''        return 1'')]
   \<and> extract_function_or_class nested_fs (demo_dir @ [''nested.py'']) ''bar''
       = Some (''    def bar(self):'' @ nl @ ''        return 1'')
   \<and> sublist (''    def bar(self):'' @ nl @ ''        return 1'')
         (nl @ ''class foo:'' @ nl @ ''    def bar(self):'' @ nl @ ''        return 1'')"
  by code_simp

text \<open>
  C5, amended. Let the earliest queued request for a file \<open>X\<close> have no \<open>''*''\<close>, and let
  \<open>X\<close> be read and parsed, its text having no line boundary but the line feed. Then the
  entry of \<open>X\<close> is the join, by two newlines, of the global-scope prologue (when it is not
  empty) and then, for each requested name with a definition, in request order, a newline
  followed by the source lines of the first definition of that name in the order of
  \<^verbatim>\<open>ast.walk\<close>; a name without a definition adds nothing. Every line of the entry is
  empty or is a source line within the span of a top-level import or assignment or of one
  of the definitions selected by the request: a definition that is not requested
  contributes a line only where its lines lie inside such a span.
\<close>

theorem partial_extraction_parts:
  assumes "extract_loop fs project_dir exclude_patterns (q1 @ (X, names) # q2) processed
             extracted_code = Inr final_code"
    and "X \<notin> fst ` set q1" and "X \<notin> processed"
    and "\<not> should_exclude exclude_patterns X"
    and "''*'' \<notin> set names"
    and "read_and_parse fs X = Some (content, body)"
    and "lf_only content"
  shows "\<exists>entry.
           map_of final_code X = Some entry
         \<and> entry = join (nl @ nl)
             ((if prologue_text content body = [] then [] else [prologue_text content body])
              @ map (\<lambda>n. nl @ definition_text content n)
                  (filter (\<lambda>n. definition_text content n \<noteq> []) (requested_defs body names)))
         \<and> (\<forall>l \<in> set (split_on CHR 0x0A entry).
               l = [] \<or> (\<exists>n \<in> set (filter is_global body) \<union> set (requested_defs body names).
                            l \<in> set (source_lines content n)))"
proof -
  let ?defs = "filter (\<lambda>n. definition_text content n \<noteq> []) (requested_defs body names)"
  let ?entry = "join (nl @ nl)
             ((if prologue_text content body = [] then [] else [prologue_text content body])
              @ map (\<lambda>n. nl @ definition_text content n) ?defs)"
  from first_request_decides [OF assms(1-4)]
  obtain c where c: "extract_file fs X names = Inr c" and m: "map_of final_code X = Some c"
    by blast
  have "c = ?entry"
    using c assms(5)
    by (auto simp: extract_file_def Let_def get_global_text [OF assms(6,7)]
        extract_names_defs [OF assms(6,7,5)])
  moreover have "\<forall>l \<in> set (split_on CHR 0x0A ?entry).
               l = [] \<or> (\<exists>n \<in> set (filter is_global body) \<union> set (requested_defs body names).
                            l \<in> set (source_lines content n))"
  proof
    fix l assume "l \<in> set (split_on CHR 0x0A ?entry)"
    from entry_lines_selected [OF this]
    show "l = [] \<or> (\<exists>n \<in> set (filter is_global body) \<union> set (requested_defs body names).
                            l \<in> set (source_lines content n))"
      by auto
  qed
  ultimately show ?thesis using m by blast
qed

theorem partial_extraction_parts_witness:
  "extract_loop demo_fs demo_dir []
     ([] @ (demo_dir @ [''x.py''], [''nope'', ''foo'']) # []) {} []
     = Inr [(demo_dir @ [''x.py''],
               ''K = 1'' @ nl @ nl @ nl @ ''def foo():'' @ nl @ ''    return K'')]
   \<and> demo_dir @ [''x.py''] \<notin> fst ` set ([] :: request list)
   \<and> demo_dir @ [''x.py''] \<notin> ({} :: path set)
   \<and> \<not> should_exclude [] (demo_dir @ [''x.py''])
   \<and> ''*'' \<notin> set [''nope'', ''foo'']
   \<and> read_and_parse demo_fs (demo_dir @ [''x.py''])
       = Some (x_content, [Assign 1 (Some 1), FunctionDef 2 (Some 3) ''foo'' [],
                           FunctionDef 4 (Some 5) ''bar'' []])
   \<and> lf_only x_content
   \<and> (\<exists>entry.
         map_of [(demo_dir @ [''x.py''],
                   ''K = 1'' @ nl @ nl @ nl @ ''def foo():'' @ nl @ ''    return K'')]
           (demo_dir @ [''x.py'']) = Some entry
       \<and> entry = join (nl @ nl)
           ((if prologue_text x_content [Assign 1 (Some 1), FunctionDef 2 (Some 3) ''foo'' [],
                                          FunctionDef 4 (Some 5) ''bar'' []] = [] then []
             else [prologue_text x_content [Assign 1 (Some 1), FunctionDef 2 (Some 3) ''foo'' [],
                                             FunctionDef 4 (Some 5) ''bar'' []]])
            @ map (\<lambda>n. nl @ definition_text x_content n)
                (filter (\<lambda>n. definition_text x_content n \<noteq> [])
                   (requested_defs [Assign 1 (Some 1), FunctionDef 2 (Some 3) ''foo'' [],
                                    FunctionDef 4 (Some 5) ''bar'' []] [''nope'', ''foo'']))))
   \<and> requested_defs [Assign 1 (Some 1), FunctionDef 2 (Some 3) ''foo'' [],
                      FunctionDef 4 (Some 5) ''bar'' []] [''nope'', ''foo'']
       = [FunctionDef 2 (Some 3) ''foo'' []]
   \<and> source_lines x_content (FunctionDef 4 (Some 5) ''bar'' [])
       = [''def bar():'', ''    return 2'']
   \<and> split_on CHR 0x0A (''K = 1'' @ nl @ nl @ nl @ ''def foo():'' @ nl @ ''    return K'')
       = [''K = 1'', [], [], ''def foo():'', ''    return K'']"
proof -
  let ?body = "[Assign 1 (Some 1), FunctionDef 2 (Some 3) ''foo'' [],
                FunctionDef 4 (Some 5) ''bar'' []]"
  have run: "extract_loop demo_fs demo_dir []
     ([] @ (demo_dir @ [''x.py''], [''nope'', ''foo'']) # []) {} []
     = Inr [(demo_dir @ [''x.py''],
               ''K = 1'' @ nl @ nl @ nl @ ''def foo():'' @ nl @ ''    return K'')]"
    by code_simp
  have h2: "demo_dir @ [''x.py''] \<notin> fst ` set ([] :: request list)" by simp
  have h3: "demo_dir @ [''x.py''] \<notin> ({} :: path set)" by simp
  have h4: "\<not> should_exclude [] (demo_dir @ [''x.py''])"
    by (simp add: should_exclude_def)
  have h5: "''*'' \<notin> set [''nope'', ''foo'']" by simp
  have h6: "read_and_parse demo_fs (demo_dir @ [''x.py'']) = Some (x_content, ?body)"
    by code_simp
  have h7: "lf_only x_content" by code_simp
  have d: "requested_defs ?body [''nope'', ''foo''] = [FunctionDef 2 (Some 3) ''foo'' []]"
    by code_simp
  have b: "source_lines x_content (FunctionDef 4 (Some 5) ''bar'' [])
           = [''def bar():'', ''    return 2'']"
    by code_simp
  have ls: "split_on CHR 0x0A (''K = 1'' @ nl @ nl @ nl @ ''def foo():'' @ nl @ ''    return K'')
       = [''K = 1'', [], [], ''def foo():'', ''    return K'']"
    by code_simp
  from partial_extraction_parts [OF run h2 h3 h4 h5 h6 h7]
  have "\<exists>entry.
         map_of [(demo_dir @ [''x.py''],
                   ''K = 1'' @ nl @ nl @ nl @ ''def foo():'' @ nl @ ''    return K'')]
           (demo_dir @ [''x.py'']) = Some entry
       \<and> entry = join (nl @ nl)
           ((if prologue_text x_content ?body = [] then [] else [prologue_text x_content ?body])
            @ map (\<lambda>n. nl @ definition_text x_content n)
                (filter (\<lambda>n. definition_text x_content n \<noteq> [])
                   (requested_defs ?body [''nope'', ''foo''])))"
    by blast
  with run h2 h3 h4 h5 h6 h7 d b ls show ?thesis by blast
qed

section \<open>Every reachable file once, in discovery order\<close>

lemma enqueue_import_set:
  "fst ` set (enqueue_import fs pd P imp q) =
     fst ` set q \<union> {g. fst imp \<notin> set skip_list \<and> resolve_import_to_file fs (fst imp) pd = Some g
                        \<and> g \<notin> P}"
  by (cases imp) (auto simp: enqueue_import_def split: option.splits)

lemma enqueue_imports_set:
  "fst ` set (enqueue_imports fs pd P imps q) =
     fst ` set q \<union> {g. \<exists>m names. (m, names) \<in> set imps \<and> m \<notin> set skip_list
                         \<and> resolve_import_to_file fs m pd = Some g \<and> g \<notin> P}"
  unfolding enqueue_imports_def
proof (induction imps arbitrary: q)
  case Nil
  then show ?case by simp
next
  case (Cons imp imps)
  obtain m names where imp: "imp = (m, names)" by (cases imp)
  show ?case
    unfolding fold_simps Cons.IH enqueue_import_set imp
    by auto
qed

lemma enqueued_targets:
  "fst ` set (enqueue_imports fs pd P (parse_imports_with_names fs f) q) =
     fst ` set q \<union> (import_targets fs pd f - P)"
  unfolding enqueue_imports_set import_targets_def by auto

lemma bfs_inv_skip:
  assumes "bfs_inv fs pd ex entry ((cur, names) # rest) processed disc" and "cur \<in> processed"
  shows "bfs_inv fs pd ex entry rest processed disc"
  using assms unfolding bfs_inv_def by auto

lemma bfs_inv_exclude:
  assumes "bfs_inv fs pd ex entry ((cur, names) # rest) processed disc"
    and "should_exclude ex cur"
  shows "bfs_inv fs pd ex entry rest (insert cur processed) disc"
  using assms unfolding bfs_inv_def by auto

lemma bfs_inv_process:
  assumes inv: "bfs_inv fs pd ex entry ((cur, names) # rest) processed disc"
    and new: "cur \<notin> processed" and keep: "\<not> should_exclude ex cur"
  shows "bfs_inv fs pd ex entry
           (enqueue_imports fs pd (insert cur processed) (parse_imports_with_names fs cur) rest)
           (insert cur processed) (disc @ [cur])"
proof -
  let ?R = "reachable fs pd ex entry"
  let ?q = "enqueue_imports fs pd (insert cur processed) (parse_imports_with_names fs cur) rest"
  have q: "fst ` set ?q = fst ` set rest \<union> (import_targets fs pd cur - insert cur processed)"
    by (rule enqueued_targets)
  from inv keep have cur: "cur \<in> ?R" unfolding bfs_inv_def by auto
  have a: "set (disc @ [cur]) \<subseteq> ?R"
    using inv cur unfolding bfs_inv_def by auto
  have b: "\<forall>f \<in> fst ` set ?q. \<not> should_exclude ex f \<longrightarrow> f \<in> ?R"
  proof (intro ballI impI)
    fix f assume "f \<in> fst ` set ?q" and nx: "\<not> should_exclude ex f"
    then have "f \<in> fst ` set rest \<or> f \<in> import_targets fs pd cur"
      unfolding q by auto
    then show "f \<in> ?R"
    proof
      assume "f \<in> fst ` set rest"
      with inv nx show ?thesis unfolding bfs_inv_def by auto
    next
      assume "f \<in> import_targets fs pd cur"
      then show ?thesis using reachable.step [OF cur _ nx] by blast
    qed
  qed
  have c: "\<forall>f \<in> set (disc @ [cur]). \<forall>g \<in> import_targets fs pd f.
             g \<in> insert cur processed \<or> g \<in> fst ` set ?q"
  proof (intro ballI)
    fix f g assume f: "f \<in> set (disc @ [cur])" and g: "g \<in> import_targets fs pd f"
    show "g \<in> insert cur processed \<or> g \<in> fst ` set ?q"
    proof (cases "f = cur")
      case True
      with g show ?thesis unfolding q by auto
    next
      case False
      with f have "f \<in> set disc" by simp
      with inv g have "g \<in> processed \<or> g \<in> fst ` set ((cur, names) # rest)"
        unfolding bfs_inv_def by blast
      then show ?thesis unfolding q by auto
    qed
  qed
  have d: "\<forall>f \<in> insert cur processed. f \<in> set (disc @ [cur]) \<or> should_exclude ex f"
    using inv unfolding bfs_inv_def by auto
  have e: "set (disc @ [cur]) \<subseteq> insert cur processed"
    using inv unfolding bfs_inv_def by auto
  have f: "distinct (disc @ [cur])"
    using inv new unfolding bfs_inv_def by auto
  have g: "\<not> should_exclude ex entry \<longrightarrow> entry \<in> insert cur processed \<or> entry \<in> fst ` set ?q"
    using inv unfolding bfs_inv_def q by auto
  show ?thesis
    unfolding bfs_inv_def using a b c d e f g by blast
qed

lemma bfs_inv_final:
  assumes inv: "bfs_inv fs pd ex entry [] processed disc"
  shows "set disc = reachable fs pd ex entry"
proof
  show "set disc \<subseteq> reachable fs pd ex entry"
    using inv unfolding bfs_inv_def by blast
  show "reachable fs pd ex entry \<subseteq> set disc"
  proof
    fix f assume "f \<in> reachable fs pd ex entry"
    then show "f \<in> set disc"
    proof (induction rule: reachable.induct)
      case entry
      with inv show ?case unfolding bfs_inv_def by auto
    next
      case (step f g)
      with inv have "g \<in> processed" unfolding bfs_inv_def by auto
      with inv step.hyps(3) show ?case unfolding bfs_inv_def by auto
    qed
  qed
qed

lemma discover_loop_reachable:
  "bfs_inv fs pd ex entry q processed disc \<Longrightarrow>
   set (discover_loop fs pd ex q processed disc) = reachable fs pd ex entry
   \<and> distinct (discover_loop fs pd ex q processed disc)"
proof (induction fs pd ex q processed disc rule: discover_loop.induct)
  case (1 fs pd ex processed disc)
  have "distinct disc" using "1.prems" unfolding bfs_inv_def by blast
  then show ?case
    using bfs_inv_final [OF "1.prems"] by simp
next
  case (2 fs pd ex cur names rest processed disc)
  show ?case
  proof (cases "cur \<in> processed")
    case True
    have eq: "discover_loop fs pd ex ((cur, names) # rest) processed disc
              = discover_loop fs pd ex rest processed disc"
      using True by simp
    show ?thesis
      unfolding eq by (rule "2.IH"(1) [OF True bfs_inv_skip [OF "2.prems" True]])
  next
    case new: False
    show ?thesis
    proof (cases "should_exclude ex cur")
      case True
      have eq: "discover_loop fs pd ex ((cur, names) # rest) processed disc
                = discover_loop fs pd ex rest (insert cur processed) disc"
        using new True by simp
      show ?thesis
        unfolding eq by (rule "2.IH"(2) [OF new True bfs_inv_exclude [OF "2.prems" True]])
    next
      case False
      have eq: "discover_loop fs pd ex ((cur, names) # rest) processed disc
                = discover_loop fs pd ex
                    (enqueue_imports fs pd (insert cur processed)
                       (parse_imports_with_names fs cur) rest)
                    (insert cur processed) (disc @ [cur])"
        using new False by simp
      show ?thesis
        unfolding eq by (rule "2.IH"(3) [OF new False bfs_inv_process [OF "2.prems" new False]])
    qed
  qed
qed

lemma bfs_inv_initial: "bfs_inv fs pd ex entry [(entry, names)] {} []"
  unfolding bfs_inv_def by (auto intro: reachable.entry)

lemma discover_files_reachable:
  "set (discover_files fs pd entry ex) = reachable fs pd ex entry
   \<and> distinct (discover_files fs pd entry ex)"
  unfolding discover_files_def
  by (rule discover_loop_reachable) (rule bfs_inv_initial)

lemma discover_loop_prefix: "prefix disc (discover_loop fs pd ex q processed disc)"
proof (induction fs pd ex q processed disc rule: discover_loop.induct)
  case (1 fs pd ex processed disc)
  then show ?case by simp
next
  case (2 fs pd ex cur names rest processed disc)
  show ?case
  proof (cases "cur \<in> processed")
    case True
    with 2 show ?thesis by simp
  next
    case new: False
    show ?thesis
    proof (cases "should_exclude ex cur")
      case True
      with 2 new show ?thesis by simp
    next
      case False
      with "2.IH"(3) [OF new False] new show ?thesis
        by (auto dest: append_prefixD)
    qed
  qed
qed

lemma dequeued_file_is_next:
  assumes "extract_loop fs pd ex ((X, names) # rest) processed acc = Inr final"
    and "X \<notin> processed" and "\<not> should_exclude ex X" and "fst ` set acc \<subseteq> processed"
  shows "prefix (map fst acc @ [X]) (map fst final)"
proof -
  have "map fst final = discover_loop fs pd ex ((X, names) # rest) processed (map fst acc)"
    using assms(1,4) by (rule extract_loop_keys)
  also have "\<dots> = discover_loop fs pd ex
                     (enqueue_imports fs pd (insert X processed) (parse_imports_with_names fs X) rest)
                     (insert X processed) (map fst acc @ [X])"
    using assms(2,3) by simp
  finally show ?thesis by (simp only: discover_loop_prefix)
qed

lemma update_fresh_append:
  "k \<notin> fst ` set al \<Longrightarrow> AList.update k v al = al @ [(k, v)]"
  by (induction al) auto

text \<open>The entries that are in the dictionary stay where they are, as they are.\<close>

lemma entries_kept:
  "extract_loop fs pd ex q processed acc = Inr final \<Longrightarrow> fst ` set acc \<subseteq> processed \<Longrightarrow>
   prefix acc final"
proof (induction fs pd ex q processed acc rule: extract_loop.induct)
  case (1 fs pd ex processed acc)
  then show ?case by simp
next
  case (2 fs pd ex cur names rest processed acc)
  show ?case
  proof (cases "cur \<in> processed")
    case True
    have "extract_loop fs pd ex rest processed acc = Inr final"
      using "2.prems"(1) True by simp
    then show ?thesis
      by (rule "2.IH"(1) [OF True _ "2.prems"(2)])
  next
    case new: False
    show ?thesis
    proof (cases "should_exclude ex cur")
      case True
      with new "2.prems"(1) obtain rel where rel: "relative_to cur pd = Inr rel"
        and run: "extract_loop fs pd ex rest (insert cur processed) acc = Inr final"
        by (auto split: sum.splits)
      have "fst ` set acc \<subseteq> insert cur processed" using "2.prems"(2) by auto
      then show ?thesis
        by (rule "2.IH"(2) [OF new True rel run])
    next
      case False
      with new "2.prems"(1) obtain rel c where rel: "relative_to cur pd = Inr rel"
        and c: "extract_file fs cur names = Inr c"
        and run: "extract_loop fs pd ex
                    (enqueue_imports fs pd (insert cur processed)
                       (parse_imports_with_names fs cur) rest)
                    (insert cur processed) (AList.update cur c acc) = Inr final"
        by (auto split: sum.splits)
      have fresh: "cur \<notin> fst ` set acc" using new "2.prems"(2) by auto
      have sub: "fst ` set (AList.update cur c acc) \<subseteq> insert cur processed"
        using "2.prems"(2) by (auto simp: dom_update)
      have "prefix (AList.update cur c acc) final"
        by (rule "2.IH"(3) [OF new False rel c run sub])
      then show ?thesis
        unfolding update_fresh_append [OF fresh] by (rule append_prefixD)
    qed
  qed
qed

lemma first_dequeue_appends:
  assumes "extract_loop fs pd ex ((X, names) # rest) processed acc = Inr final"
    and "X \<notin> processed" and "\<not> should_exclude ex X" and "fst ` set acc \<subseteq> processed"
  shows "\<exists>c. extract_file fs X names = Inr c \<and> prefix (acc @ [(X, c)]) final"
proof -
  from assms(1-3) obtain rel c where c: "extract_file fs X names = Inr c"
    and run: "extract_loop fs pd ex
                (enqueue_imports fs pd (insert X processed) (parse_imports_with_names fs X) rest)
                (insert X processed) (AList.update X c acc) = Inr final"
    by (auto split: sum.splits)
  have fresh: "X \<notin> fst ` set acc" using assms(2,4) by auto
  have sub: "fst ` set (AList.update X c acc) \<subseteq> insert X processed"
    using assms(4) by (auto simp: dom_update)
  have "prefix (AList.update X c acc) final"
    using run sub by (rule entries_kept)
  then show ?thesis
    using c unfolding update_fresh_append [OF fresh] by blast
qed

lemma write_code_sections:
  "write_code pd code = (chunks, None) \<Longrightarrow>
   chunks = concat (map (\<lambda>(file_path, c).
              [nl @ replicate 60 CHR ''='' @ nl,
               ''FILE: '' @ path_str file_path @ nl,
               ''Relative Path: '' @ path_str (drop (length pd) file_path) @ nl,
               ''Directory: ''
                 @ (if parent file_path \<noteq> pd
                    then path_str (drop (length pd) (parent file_path)) else ''(root)'')
                 @ nl,
               ''Extracted Lines: '' @ show_nat (length (splitlines c)) @ nl,
               replicate 60 CHR ''='' @ nl @ nl,
               c,
               nl @ nl]) code)"
proof (induction code arbitrary: chunks)
  case Nil
  then show ?case by simp
next
  case (Cons entry code)
  obtain file_path c where entry: "entry = (file_path, c)" by (cases entry)
  from Cons.prems entry obtain rel dir rest_chunks
    where rel: "relative_to file_path pd = Inr rel"
      and dir: "directory_of file_path pd = Inr dir"
      and rest: "write_code pd code = (rest_chunks, None)"
      and chunks: "chunks = write_section file_path (path_str rel) dir c @ rest_chunks"
    by (auto split: sum.splits prod.splits)
  from rel have r: "rel = drop (length pd) file_path"
    by (auto simp: relative_to_def split: if_splits)
  from dir have d: "dir = (if parent file_path \<noteq> pd
           then path_str (drop (length pd) (parent file_path)) else ''(root)'')"
    by (auto simp: directory_of_def relative_to_def split: if_splits sum.splits)
  show ?case
    using Cons.IH [OF rest] chunks r d entry by (simp add: write_section_def)
qed

text \<open>
  C4 (each file exactly once, in discovery order). A file is the path that names it.
  For a run of \<^verbatim>\<open>extract_used_code\<close> that completes: the keys of \<^verbatim>\<open>extracted_code\<close>
  are distinct and are exactly the files reachable from the entry file through
  resolvable import edges over files that are not excluded; the body of the artifact is,
  for each entry in the order of the dictionary, one section that names the file on its
  \<^verbatim>\<open>FILE:\<close> line and holds the code of the entry. In every state of the loop, a file
  that is dequeued for the first time gets its entry directly after the entries already
  there, so the order of the dictionary is the order of first dequeue; and from then on
  the entries already there are left as they are, a processed file getting no new entry
  however often it is met again.
\<close>

theorem each_file_once_in_discovery_order:
  assumes "raised (extract_used_code fs project_dir entry_file exclude_patterns) = None"
    and "extraction_phase fs project_dir entry_file exclude_patterns = Inr extracted_code"
    and "build_tree_structure (map fst extracted_code) project_dir = Inr tree"
  shows "distinct (map fst extracted_code)
       \<and> set (map fst extracted_code) = reachable fs project_dir exclude_patterns entry_file
       \<and> artifact (extract_used_code fs project_dir entry_file exclude_patterns) =
           Some (write_header project_dir (length extracted_code) tree
                 @ concat (map (\<lambda>(file_path, code).
                     [nl @ replicate 60 CHR ''='' @ nl,
                      ''FILE: '' @ path_str file_path @ nl,
                      ''Relative Path: '' @ path_str (drop (length project_dir) file_path) @ nl,
                      ''Directory: ''
                        @ (if parent file_path \<noteq> project_dir
                           then path_str (drop (length project_dir) (parent file_path))
                           else ''(root)'')
                        @ nl,
                      ''Extracted Lines: '' @ show_nat (length (splitlines code)) @ nl,
                      replicate 60 CHR ''='' @ nl @ nl,
                      code,
                      nl @ nl]) extracted_code))
       \<and> (X \<notin> processed \<and> \<not> should_exclude exclude_patterns X \<and> fst ` set acc \<subseteq> processed
            \<and> extract_loop fs project_dir exclude_patterns ((X, names) # rest) processed acc
                = Inr final
          \<longrightarrow> (\<exists>code. extract_file fs X names = Inr code \<and> prefix (acc @ [(X, code)]) final))
       \<and> (Y \<in> processed \<and> fst ` set acc \<subseteq> processed
            \<and> extract_loop fs project_dir exclude_patterns q processed acc = Inr final'
          \<longrightarrow> prefix acc final' \<and> map_of final' Y = map_of acc Y)"
proof -
  have keys: "map fst extracted_code = discover_files fs project_dir entry_file exclude_patterns"
    using extract_loop_keys [of fs project_dir exclude_patterns "[(entry_file, [''*''])]" "{}" "[]"
        extracted_code] assms(2)
    by (simp add: extraction_phase_def discover_files_def)
  have once: "distinct (map fst extracted_code)"
    and all: "set (map fst extracted_code) = reachable fs project_dir exclude_patterns entry_file"
    using discover_files_reachable [of fs project_dir entry_file exclude_patterns] keys
    by simp_all
  obtain chunks err where w: "write_code project_dir extracted_code = (chunks, err)"
    by (cases "write_code project_dir extracted_code")
  have run: "artifact (extract_used_code fs project_dir entry_file exclude_patterns) =
               Some (write_header project_dir (length extracted_code) tree @ chunks)
             \<and> err = None"
    using assms w
    by (auto simp: extract_used_code_def Let_def aborted_def split: sum.splits)
  with w have "write_code project_dir extracted_code = (chunks, None)" by simp
  from write_code_sections [OF this] run
  have body: "artifact (extract_used_code fs project_dir entry_file exclude_patterns) =
           Some (write_header project_dir (length extracted_code) tree
                 @ concat (map (\<lambda>(file_path, code).
                     [nl @ replicate 60 CHR ''='' @ nl,
                      ''FILE: '' @ path_str file_path @ nl,
                      ''Relative Path: '' @ path_str (drop (length project_dir) file_path) @ nl,
                      ''Directory: ''
                        @ (if parent file_path \<noteq> project_dir
                           then path_str (drop (length project_dir) (parent file_path))
                           else ''(root)'')
                        @ nl,
                      ''Extracted Lines: '' @ show_nat (length (splitlines code)) @ nl,
                      replicate 60 CHR ''='' @ nl @ nl,
                      code,
                      nl @ nl]) extracted_code))"
    by simp
  have order: "X \<notin> processed \<and> \<not> should_exclude exclude_patterns X \<and> fst ` set acc \<subseteq> processed
            \<and> extract_loop fs project_dir exclude_patterns ((X, names) # rest) processed acc
                = Inr final
          \<longrightarrow> (\<exists>code. extract_file fs X names = Inr code \<and> prefix (acc @ [(X, code)]) final)"
    using first_dequeue_appends [of fs project_dir exclude_patterns X names rest processed acc final]
    by blast
  have again: "Y \<in> processed \<and> fst ` set acc \<subseteq> processed
            \<and> extract_loop fs project_dir exclude_patterns q processed acc = Inr final'
          \<longrightarrow> prefix acc final' \<and> map_of final' Y = map_of acc Y"
    using entries_kept [of fs project_dir exclude_patterns q processed acc final']
      processed_entry_kept [of fs project_dir exclude_patterns q processed acc final' Y]
    by blast
  from once all body order again show ?thesis by blast
qed

theorem each_file_once_in_discovery_order_witness:
  "raised (extract_used_code demo_fs demo_dir (demo_dir @ [''start.py'']) []) = None
   \<and> extraction_phase demo_fs demo_dir (demo_dir @ [''start.py'']) [] =
       Inr [(demo_dir @ [''start.py''], ''import a'' @ nl @ ''import c'' @ nl),
            (demo_dir @ [''a.py''], ''from x import foo'' @ nl),
            (demo_dir @ [''c.py''], ''from x import bar'' @ nl),
            (demo_dir @ [''x.py''],
               ''K = 1'' @ nl @ nl @ nl @ ''def foo():'' @ nl @ ''    return K'')]
   \<and> build_tree_structure
         [demo_dir @ [''start.py''], demo_dir @ [''a.py''], demo_dir @ [''c.py''],
          demo_dir @ [''x.py'']] demo_dir
       = Inr [(''start.py'', TNode True []), (''a.py'', TNode True []),
              (''c.py'', TNode True []), (''x.py'', TNode True [])]
   \<and> distinct [demo_dir @ [''start.py''], demo_dir @ [''a.py''], demo_dir @ [''c.py''],
                 demo_dir @ [''x.py'']]
   \<and> set [demo_dir @ [''start.py''], demo_dir @ [''a.py''], demo_dir @ [''c.py''],
            demo_dir @ [''x.py'']]
       = reachable demo_fs demo_dir [] (demo_dir @ [''start.py''])
   \<and> artifact (extract_used_code demo_fs demo_dir (demo_dir @ [''start.py'']) []) =
       Some (write_header demo_dir 4
               [(''start.py'', TNode True []), (''a.py'', TNode True []),
                (''c.py'', TNode True []), (''x.py'', TNode True [])]
             @ concat (map (\<lambda>(file_path, code).
                     [nl @ replicate 60 CHR ''='' @ nl,
                      ''FILE: '' @ path_str file_path @ nl,
                      ''Relative Path: '' @ path_str (drop (length demo_dir) file_path) @ nl,
                      ''Directory: ''
                        @ (if parent file_path \<noteq> demo_dir
                           then path_str (drop (length demo_dir) (parent file_path))
                           else ''(root)'')
                        @ nl,
                      ''Extracted Lines: '' @ show_nat (length (splitlines code)) @ nl,
                      replicate 60 CHR ''='' @ nl @ nl,
                      code,
                      nl @ nl])
                 [(demo_dir @ [''start.py''], ''import a'' @ nl @ ''import c'' @ nl),
                  (demo_dir @ [''a.py''], ''from x import foo'' @ nl),
                  (demo_dir @ [''c.py''], ''from x import bar'' @ nl),
                  (demo_dir @ [''x.py''],
                     ''K = 1'' @ nl @ nl @ nl @ ''def foo():'' @ nl @ ''    return K'')]))
   \<and> drop 36 (the (artifact (extract_used_code demo_fs demo_dir (demo_dir @ [''start.py'']) [])))
       = [nl @ replicate 60 CHR ''='' @ nl,
          ''FILE: /proj/x.py'' @ nl,
          ''Relative Path: x.py'' @ nl,
          ''Directory: (root)'' @ nl,
          ''Extracted Lines: 5'' @ nl,
          replicate 60 CHR ''='' @ nl @ nl,
          ''K = 1'' @ nl @ nl @ nl @ ''def foo():'' @ nl @ ''    return K'',
          nl @ nl]"
proof -
  let ?code = "[(demo_dir @ [''start.py''], ''import a'' @ nl @ ''import c'' @ nl),
            (demo_dir @ [''a.py''], ''from x import foo'' @ nl),
            (demo_dir @ [''c.py''], ''from x import bar'' @ nl),
            (demo_dir @ [''x.py''],
               ''K = 1'' @ nl @ nl @ nl @ ''def foo():'' @ nl @ ''    return K'')]"
  let ?tree = "[(''start.py'', TNode True []), (''a.py'', TNode True []),
              (''c.py'', TNode True []), (''x.py'', TNode True [])]"
  have completes: "raised (extract_used_code demo_fs demo_dir (demo_dir @ [''start.py'']) []) = None"
    by code_simp
  have phase: "extraction_phase demo_fs demo_dir (demo_dir @ [''start.py'']) [] = Inr ?code"
    by code_simp
  have keys: "map fst ?code = [demo_dir @ [''start.py''], demo_dir @ [''a.py''],
      demo_dir @ [''c.py''], demo_dir @ [''x.py'']]"
    by simp
  have len: "length ?code = 4" by simp
  have built: "build_tree_structure (map fst ?code) demo_dir = Inr ?tree"
    by code_simp
  have last_section:
    "drop 36 (the (artifact (extract_used_code demo_fs demo_dir (demo_dir @ [''start.py'']) [])))
       = [nl @ replicate 60 CHR ''='' @ nl,
          ''FILE: /proj/x.py'' @ nl,
          ''Relative Path: x.py'' @ nl,
          ''Directory: (root)'' @ nl,
          ''Extracted Lines: 5'' @ nl,
          replicate 60 CHR ''='' @ nl @ nl,
          ''K = 1'' @ nl @ nl @ nl @ ''def foo():'' @ nl @ ''    return K'',
          nl @ nl]"
    by code_simp
  from each_file_once_in_discovery_order [OF completes phase built]
  have "distinct (map fst ?code)
        \<and> set (map fst ?code) = reachable demo_fs demo_dir [] (demo_dir @ [''start.py''])
        \<and> artifact (extract_used_code demo_fs demo_dir (demo_dir @ [''start.py'']) []) =
            Some (write_header demo_dir (length ?code) ?tree
                  @ concat (map (\<lambda>(file_path, code).
                     [nl @ replicate 60 CHR ''='' @ nl,
                      ''FILE: '' @ path_str file_path @ nl,
                      ''Relative Path: '' @ path_str (drop (length demo_dir) file_path) @ nl,
                      ''Directory: ''
                        @ (if parent file_path \<noteq> demo_dir
                           then path_str (drop (length demo_dir) (parent file_path))
                           else ''(root)'')
                        @ nl,
                      ''Extracted Lines: '' @ show_nat (length (splitlines code)) @ nl,
                      replicate 60 CHR ''='' @ nl @ nl,
                      code,
                      nl @ nl]) ?code))"
    by blast
  then show ?thesis
    unfolding keys len using completes phase built [unfolded keys] last_section by blast
qed

section \<open>The written manifest lists every file\<close>

text \<open>The paths a dictionary lists, and how inserting one more path changes them.\<close>

lemma listed_node_alt:
  "listed_node name data = [name] # (if is_file data then [] else map ((#) name) (listed (children data)))"
  by (cases data) (simp add: listed_def)

lemma listed_Nil [simp]: "listed [] = []"
  by (simp add: listed_def)

lemma listed_Cons: "listed (x # t) = listed_node (fst x) (snd x) @ listed t"
  by (simp add: listed_def)

lemma listed_append: "listed (s @ t) = listed s @ listed t"
  by (simp add: listed_def)

lemma listed_node_heads: "ps \<in> set (listed_node k d) \<Longrightarrow> \<exists>r. ps = k # r"
  by (auto simp: listed_node_alt split: if_splits)

lemma listed_heads: "ps \<in> set (listed t) \<Longrightarrow> \<exists>k r. ps = k # r \<and> k \<in> fst ` set t"
proof (induction t)
  case Nil
  then show ?case by simp
next
  case (Cons x t)
  then show ?case
    by (auto simp: listed_Cons dest: listed_node_heads)
qed

lemma listed_key: "(k, d) \<in> set t \<Longrightarrow> [k] \<in> set (listed t)"
  by (induction t) (auto simp: listed_Cons listed_node_alt)

lemma listed_nonempty: "[] \<notin> set (listed t)"
  by (auto dest: listed_heads)

lemma listed_update:
  assumes "map_of t k = Some d" and "distinct (listed t)"
    and "distinct (listed_node k d')"
    and "set (listed_node k d') = set (listed_node k d) \<union> M"
  shows "set (listed (AList.update k d' t)) = set (listed t) \<union> M
       \<and> distinct (listed (AList.update k d' t))"
  using assms(1,2)
proof (induction t)
  case Nil
  then show ?case by simp
next
  case (Cons x t)
  obtain k' d0 where x: "x = (k', d0)" by (cases x)
  show ?case
  proof (cases "k' = k")
    case True
    with Cons.prems x have d0: "d0 = d" by simp
    have "set (listed_node k d') \<inter> set (listed t) = {}"
    proof (rule ccontr)
      assume "set (listed_node k d') \<inter> set (listed t) \<noteq> {}"
      then obtain ps where a: "ps \<in> set (listed_node k d')" and b: "ps \<in> set (listed t)" by blast
      from a obtain r where "ps = k # r" by (auto dest: listed_node_heads)
      with b obtain dd where "(k, dd) \<in> set t" by (auto dest: listed_heads)
      then have "[k] \<in> set (listed t)" by (rule listed_key)
      moreover have "[k] \<in> set (listed_node k d)" by (simp add: listed_node_alt)
      ultimately show False using Cons.prems(2) x True d0 by (auto simp: listed_Cons)
    qed
    with Cons.prems x True d0 assms(3,4) show ?thesis
      by (auto simp: listed_Cons)
  next
    case False
    with Cons.prems x have m: "map_of t k = Some d" and dt: "distinct (listed t)"
      by (simp_all add: listed_Cons)
    from Cons.IH [OF m dt] have IH: "set (listed (AList.update k d' t)) = set (listed t) \<union> M"
      "distinct (listed (AList.update k d' t))" by simp_all
    have "set (listed_node k' d0) \<inter> set (listed (AList.update k d' t)) = {}"
    proof (rule ccontr)
      assume "set (listed_node k' d0) \<inter> set (listed (AList.update k d' t)) \<noteq> {}"
      then obtain ps where a: "ps \<in> set (listed_node k' d0)"
        and b: "ps \<in> set (listed (AList.update k d' t))" by blast
      from a obtain r where ps: "ps = k' # r" by (auto dest: listed_node_heads)
      with b have "k' \<in> fst ` set (AList.update k d' t)" by (auto dest: listed_heads)
      with False have "k' \<in> fst ` set t" by (simp add: dom_update)
      then obtain dd where "(k', dd) \<in> set t" by auto
      then have "[k'] \<in> set (listed t)" by (rule listed_key)
      moreover have "[k'] \<in> set (listed_node k' d0)" by (simp add: listed_node_alt)
      ultimately show False using Cons.prems(2) x by (auto simp: listed_Cons)
    qed
    with Cons.prems x False IH show ?thesis
      by (auto simp: listed_Cons)
  qed
qed

lemma prefix_snoc_set:
  "{ps. ps \<noteq> [] \<and> prefix ps (part # rest)} = insert [part] ((#) part ` {ps. ps \<noteq> [] \<and> prefix ps rest})"
  by (auto simp: prefix_Cons image_iff)

lemma insert_listed:
  "distinct (listed t) \<Longrightarrow> clear t parts \<Longrightarrow>
   set (listed (insert_parts t parts)) = set (listed t) \<union> {ps. ps \<noteq> [] \<and> prefix ps parts}
   \<and> distinct (listed (insert_parts t parts))"
proof (induction parts arbitrary: t)
  case Nil
  then show ?case by simp
next
  case (Cons part rest)
  show ?case
  proof (cases "map_of t part")
    case None
    have c0: "clear [] rest" by (cases rest) simp_all
    from Cons.IH [of "[]", OF _ c0]
    have sub: "set (listed (insert_parts [] rest)) = {ps. ps \<noteq> [] \<and> prefix ps rest}"
      and dsub: "distinct (listed (insert_parts [] rest))" by simp_all
    let ?n = "TNode (rest = []) (insert_parts [] rest)"
    have ln: "listed_node part ?n = [part] # map ((#) part) (listed (insert_parts [] rest))"
      by (cases "rest = []") (simp_all add: listed_def)
    have ins: "insert_parts t (part # rest) = t @ [(part, ?n)]" using None by simp
    have disj: "set (listed t) \<inter> set (listed_node part ?n) = {}"
    proof (rule ccontr)
      assume "set (listed t) \<inter> set (listed_node part ?n) \<noteq> {}"
      then obtain ps where a: "ps \<in> set (listed t)" and b: "ps \<in> set (listed_node part ?n)"
        by blast
      from listed_node_heads [OF b] obtain r where "ps = part # r" by blast
      with a have "part \<in> fst ` set t" by (auto dest: listed_heads)
      with None show False by (simp add: map_of_eq_None_iff)
    qed
    have dn: "distinct (listed_node part ?n)"
      unfolding ln using dsub listed_nonempty [of "insert_parts [] rest"]
      by (auto simp: distinct_map inj_on_def)
    have "set (listed (insert_parts t (part # rest)))
          = set (listed t) \<union> set (listed_node part ?n)"
      unfolding ins by (simp add: listed_append listed_def)
    also have "set (listed_node part ?n) = {ps. ps \<noteq> [] \<and> prefix ps (part # rest)}"
      unfolding ln prefix_snoc_set using sub by simp
    finally have s: "set (listed (insert_parts t (part # rest)))
          = set (listed t) \<union> {ps. ps \<noteq> [] \<and> prefix ps (part # rest)}" .
    have "distinct (listed (insert_parts t (part # rest)))"
      unfolding ins using Cons.prems(1) dn disj
      by (simp add: listed_append listed_Cons)
    with s show ?thesis by simp
  next
    case (Some d)
    from Some have in_t: "(part, d) \<in> set t" by (rule map_of_SomeD)
    show ?thesis
    proof (cases "rest = []")
      case True
      have "TNode (is_file d) (children d) = d" by simp
      then have "insert_parts t (part # rest) = t"
        using Some True by (simp add: update_triv)
      moreover have "{ps. ps \<noteq> [] \<and> prefix ps [part]} = {[part]}"
        by (auto simp: prefix_Cons)
      ultimately show ?thesis
        using Cons.prems(1) listed_key [OF in_t] True by auto
    next
      case ne: False
      with Cons.prems(2) Some have dir: "\<not> is_file d" and cl: "clear (children d) rest"
        by simp_all
      have sub: "set (listed_node part d) \<subseteq> set (listed t)"
        using in_t by (induction t) (auto simp: listed_Cons)
      have dnode: "distinct (listed_node part d)"
        using in_t Cons.prems(1) by (induction t) (auto simp: listed_Cons)
      then have dch: "distinct (listed (children d))"
        using dir by (simp add: listed_node_alt distinct_map)
      from Cons.IH [OF dch cl]
      have IHs: "set (listed (insert_parts (children d) rest))
                 = set (listed (children d)) \<union> {ps. ps \<noteq> [] \<and> prefix ps rest}"
        and IHd: "distinct (listed (insert_parts (children d) rest))" by simp_all
      let ?n = "TNode (is_file d) (insert_parts (children d) rest)"
      have ln: "listed_node part ?n = [part] # map ((#) part) (listed (insert_parts (children d) rest))"
        using dir by (simp add: listed_def)
      have d1: "distinct (listed_node part ?n)"
        unfolding ln using IHd listed_nonempty [of "insert_parts (children d) rest"]
        by (auto simp: distinct_map inj_on_def)
      have s1: "set (listed_node part ?n)
                = set (listed_node part d) \<union> (#) part ` {ps. ps \<noteq> [] \<and> prefix ps rest}"
        unfolding ln using IHs dir by (auto simp: listed_node_alt)
      from listed_update [OF Some Cons.prems(1) d1 s1]
      have "set (listed (insert_parts t (part # rest)))
              = set (listed t) \<union> (#) part ` {ps. ps \<noteq> [] \<and> prefix ps rest}"
        and dd: "distinct (listed (insert_parts t (part # rest)))"
        using Some by simp_all
      moreover have "[part] \<in> set (listed t)" using in_t by (rule listed_key)
      ultimately have "set (listed (insert_parts t (part # rest)))
              = set (listed t) \<union> {ps. ps \<noteq> [] \<and> prefix ps (part # rest)}"
        unfolding prefix_snoc_set by auto
      with dd show ?thesis by simp
    qed
  qed
qed

text \<open>The lines of \<^verbatim>\<open>write_tree\<close> are entry lines, one for each listed path.\<close>

lemma mset_concat_cong:
  "(\<And>x. x \<in> set xs \<Longrightarrow> mset (f x) = mset (h x)) \<Longrightarrow>
   mset (concat (map f xs)) = mset (concat (map h xs))"
  by (induction xs) simp_all

lemma mset_concat_perm:
  "mset xs = mset ys \<Longrightarrow> mset (concat (map h xs)) = mset (concat (map h ys))"
proof -
  assume "mset xs = mset ys"
  then have "image_mset (\<lambda>x. mset (h x)) (mset xs) = image_mset (\<lambda>x. mset (h x)) (mset ys)"
    by simp
  then have "sum_mset (image_mset (\<lambda>x. mset (h x)) (mset xs))
             = sum_mset (image_mset (\<lambda>x. mset (h x)) (mset ys))"
    by simp
  then show ?thesis
    by (simp add: mset_concat sum_mset_sum_list [symmetric] comp_def)
qed

lemma concat_enumerate_snd:
  "concat (map (\<lambda>x. h (snd x)) (enumerate k xs)) = concat (map h xs)"
  by (induction xs arbitrary: k) simp_all

lemma image_last_Cons:
  "[] \<notin> set xs \<Longrightarrow> image_mset (last \<circ> (#) n) (mset xs) = image_mset last (mset xs)"
  by (induction xs) auto

lemma write_tree_names:
  "mset (map line_name (write_tree t p)) = mset (map last (listed t))"
proof (induction t p rule: write_tree.induct)
  case (1 t p)
  let ?items = "sort_items t"
  let ?g = "\<lambda>(idx, name, data).
                   let is_last_item = (idx = length ?items - 1);
                       connector = (if is_last_item then last_connector else mid_connector);
                       extension = (if is_last_item then last_extension else mid_extension)
                   in if is_file data then [Entry p connector True name]
                      else Entry p connector False name
                           # write_tree (children data) (p @ extension)"
  have each: "mset (map line_name (?g x)) = mset (map last (listed_node (fst (snd x)) (snd (snd x))))"
    if "x \<in> set (enumerate 0 ?items)" for x
  proof -
    obtain idx name data where xeq: "x = (idx, name, data)" by (cases x)
    show ?thesis
    proof (cases "is_file data")
      case True
      with xeq show ?thesis by (simp add: Let_def listed_node_alt)
    next
      case False
      from "1.IH" [OF refl that [unfolded xeq] refl refl refl refl refl False]
      show ?thesis using xeq False
        by (simp add: Let_def listed_node_alt image_last_Cons [OF listed_nonempty])
    qed
  qed
  have "write_tree t p = concat (map ?g (enumerate 0 ?items))"
    by (subst write_tree.simps) (simp add: Let_def)
  then have "mset (map line_name (write_tree t p))
             = mset (concat (map (\<lambda>x. map line_name (?g x)) (enumerate 0 ?items)))"
    by (simp only: map_concat map_map comp_def)
  also have "\<dots> = mset (concat (map (\<lambda>x. map last (listed_node (fst (snd x)) (snd (snd x))))
                                  (enumerate 0 ?items)))"
    using each by (rule mset_concat_cong)
  also have "\<dots> = mset (concat (map (\<lambda>x. map last (listed_node (fst x) (snd x))) ?items))"
    by (simp only: concat_enumerate_snd [where h = "\<lambda>x. map last (listed_node (fst x) (snd x))"])
  also have "\<dots> = mset (concat (map (\<lambda>x. map last (listed_node (fst x) (snd x))) t))"
    by (rule mset_concat_perm) (simp add: sort_items_def)
  finally show ?case by (simp add: listed_def map_concat comp_def)
qed

lemma write_tree_entries:
  "l \<in> set (write_tree t p) \<Longrightarrow> \<exists>q c f n. l = Entry q c f n"
proof (induction t p arbitrary: l rule: write_tree.induct)
  case (1 t p)
  from "1.prems" obtain idx name data where x: "(idx, name, data) \<in> set (enumerate 0 (sort_items t))"
    and l: "l \<in> set (let is_last_item = (idx = length (sort_items t) - 1);
                       connector = (if is_last_item then last_connector else mid_connector);
                       extension = (if is_last_item then last_extension else mid_extension)
                   in if is_file data then [Entry p connector True name]
                      else Entry p connector False name
                           # write_tree (children data) (p @ extension))"
    by (subst (asm) write_tree.simps) (auto simp: Let_def)
  show ?case
  proof (cases "is_file data")
    case True
    with l show ?thesis by (auto simp: Let_def)
  next
    case False
    with l "1.IH" [OF refl x refl refl refl refl refl False] show ?thesis
      by (auto simp: Let_def)
  qed
qed

lemma render_entries:
  "map (\<lambda>l. render_line l @ nl) (write_tree t p)
   = map (\<lambda>l. line_pfx l @ line_connector l
                @ (if line_is_file l then file_icon @ '' '' @ line_name l
                   else folder_icon @ '' '' @ line_name l @ ''/'') @ nl)
       (write_tree t p)"
proof (rule map_cong [OF refl])
  fix l assume "l \<in> set (write_tree t p)"
  then obtain q c f n where "l = Entry q c f n" by (auto dest: write_tree_entries)
  then show "render_line l @ nl = line_pfx l @ line_connector l
                @ (if line_is_file l then file_icon @ '' '' @ line_name l
                   else folder_icon @ '' '' @ line_name l @ ''/'') @ nl"
    by simp
qed

lemma has_node_empty: "\<not> has_node [] ps f"
  by (auto elim: has_node.cases)

lemma set_update_subset: "set (AList.update k v t) \<subseteq> insert (k, v) (set t)"
  by (induction t) auto

lemma insert_nodes:
  "has_node (insert_parts t parts) ps f \<Longrightarrow>
   has_node t ps f \<or> (ps \<noteq> [] \<and> prefix ps parts \<and> (f \<longrightarrow> ps = parts))"
proof (induction parts arbitrary: t ps f)
  case Nil
  then show ?case by simp
next
  case (Cons part rest)
  show ?case
  proof (cases "map_of t part")
    case None
    let ?n = "TNode (rest = []) (insert_parts [] rest)"
    from Cons.prems None have hn: "has_node (t @ [(part, ?n)]) ps f" by simp
    then show ?thesis
    proof (cases rule: has_node.cases)
      case (here name d)
      then show ?thesis by (auto intro: has_node.here)
    next
      case (below name d ps')
      show ?thesis
      proof (cases "(name, d) \<in> set t")
        case True
        with below show ?thesis by (auto intro: has_node.below)
      next
        case False
        with below have nd: "name = part" "d = ?n" by auto
        with below have "has_node (insert_parts [] rest) ps' f" by simp
        from Cons.IH [OF this] have "ps' \<noteq> [] \<and> prefix ps' rest \<and> (f \<longrightarrow> ps' = rest)"
          by (simp add: has_node_empty)
        with below nd show ?thesis by simp
      qed
    qed
  next
    case (Some d0)
    let ?n = "TNode (is_file d0) (insert_parts (children d0) rest)"
    from Some have in_t: "(part, d0) \<in> set t" by (rule map_of_SomeD)
    from Cons.prems Some have hn: "has_node (AList.update part ?n t) ps f" by simp
    then show ?thesis
    proof (cases rule: has_node.cases)
      case (here name d)
      then have "(name, d) \<in> set t \<or> (name, d) = (part, ?n)"
        using set_update_subset [of part ?n t] by auto
      then show ?thesis
      proof
        assume "(name, d) \<in> set t"
        with here show ?thesis by (auto intro: has_node.here)
      next
        assume "(name, d) = (part, ?n)"
        with here in_t have "has_node t ps f"
          using has_node.here [OF in_t] by simp
        then show ?thesis ..
      qed
    next
      case (below name d ps')
      then have "(name, d) \<in> set t \<or> (name, d) = (part, ?n)"
        using set_update_subset [of part ?n t] by auto
      then show ?thesis
      proof
        assume "(name, d) \<in> set t"
        with below show ?thesis by (auto intro: has_node.below)
      next
        assume eq: "(name, d) = (part, ?n)"
        with below have "has_node (insert_parts (children d0) rest) ps' f" by simp
        from Cons.IH [OF this] show ?thesis
        proof
          assume "has_node (children d0) ps' f"
          from has_node.below [OF in_t this] below eq show ?thesis by simp
        next
          assume "ps' \<noteq> [] \<and> prefix ps' rest \<and> (f \<longrightarrow> ps' = rest)"
          with below eq show ?thesis by simp
        qed
      qed
    qed
  qed
qed

lemma not_clear_conflict:
  "\<not> clear t parts \<Longrightarrow> \<exists>ps. has_node t ps True \<and> strict_prefix ps parts"
proof (induction parts arbitrary: t)
  case Nil
  then show ?case by simp
next
  case (Cons part rest)
  from Cons.prems obtain d where d: "map_of t part = Some d" and ne: "rest \<noteq> []"
    and why: "is_file d \<or> \<not> clear (children d) rest"
    by (auto split: option.splits)
  from d have in_t: "(part, d) \<in> set t" by (rule map_of_SomeD)
  show ?case
  proof (cases "is_file d")
    case True
    with has_node.here [OF in_t] have "has_node t [part] True" by simp
    moreover have "strict_prefix [part] (part # rest)" using ne by (simp add: strict_prefix_def)
    ultimately show ?thesis by blast
  next
    case False
    with why have "\<not> clear (children d) rest" by simp
    from Cons.IH [OF this] obtain ps where "has_node (children d) ps True" "strict_prefix ps rest"
      by blast
    then have "has_node t (part # ps) True" "strict_prefix (part # ps) (part # rest)"
      using has_node.below [OF in_t] by (auto simp: strict_prefix_def)
    then show ?thesis by blast
  qed
qed

lemma built_from_insert:
  "built_from t F \<Longrightarrow> built_from (insert_parts t parts) (insert parts F)"
  unfolding built_from_def
proof (intro allI impI)
  fix ps f
  assume inv: "\<forall>ps f. has_node t ps f \<longrightarrow> (\<exists>g\<in>F. prefix ps g \<and> (f \<longrightarrow> ps = g))"
    and hn: "has_node (insert_parts t parts) ps f"
  from insert_nodes [OF hn] show "\<exists>g\<in>insert parts F. prefix ps g \<and> (f \<longrightarrow> ps = g)"
  proof
    assume "has_node t ps f"
    with inv show ?thesis by blast
  next
    assume "ps \<noteq> [] \<and> prefix ps parts \<and> (f \<longrightarrow> ps = parts)"
    then show ?thesis by blast
  qed
qed

lemma built_from_empty: "built_from [] F"
  by (simp add: built_from_def has_node_empty)

lemma build_tree_loop_listed:
  assumes "build_tree_loop files pd t0 = Inr t"
    and "built_from t0 (drop (length pd) ` G)"
    and "\<forall>g \<in> G. prefix pd g"
    and "distinct (listed t0)"
    and "sorted_wrt (\<lambda>g f. \<not> strict_prefix g f) files"
    and "\<forall>g \<in> G. \<forall>f \<in> set files. \<not> strict_prefix g f"
  shows "set (listed t) = set (listed t0)
           \<union> {ps. ps \<noteq> [] \<and> (\<exists>f \<in> set files. prefix ps (drop (length pd) f))}
       \<and> distinct (listed t)"
  using assms
proof (induction files arbitrary: t0 G)
  case Nil
  then show ?case by simp
next
  case (Cons f files)
  from Cons.prems(1) obtain rel where rel: "relative_to f pd = Inr rel"
    and loop: "build_tree_loop files pd (insert_parts t0 rel) = Inr t"
    by (auto split: sum.splits)
  from rel have pf: "prefix pd f" and releq: "rel = drop (length pd) f"
    by (auto simp: relative_to_def split: if_splits)
  from pf obtain r where f: "f = pd @ r" by (auto simp: prefix_def)
  with releq have r: "r = rel" by simp
  have cl: "clear t0 rel"
  proof (rule ccontr)
    assume "\<not> clear t0 rel"
    from not_clear_conflict [OF this] obtain ps where ps: "has_node t0 ps True"
      "strict_prefix ps rel" by blast
    with Cons.prems(2) have "ps \<in> drop (length pd) ` G" unfolding built_from_def by blast
    then obtain g where g: "g \<in> G" "ps = drop (length pd) g" by blast
    with Cons.prems(3) obtain s where gs: "g = pd @ s" by (auto simp: prefix_def)
    with g have "s = ps" by simp
    with gs ps(2) f r have "strict_prefix g f" by (auto simp: strict_prefix_def)
    with Cons.prems(6) g show False by auto
  qed
  from insert_listed [OF Cons.prems(4) cl]
  have step: "set (listed (insert_parts t0 rel))
                = set (listed t0) \<union> {ps. ps \<noteq> [] \<and> prefix ps rel}"
    and dstep: "distinct (listed (insert_parts t0 rel))" by simp_all
  have inv: "built_from (insert_parts t0 rel) (drop (length pd) ` insert f G)"
    using built_from_insert [OF Cons.prems(2), of rel] releq by simp
  have "set (listed t) = set (listed (insert_parts t0 rel))
           \<union> {ps. ps \<noteq> [] \<and> (\<exists>f \<in> set files. prefix ps (drop (length pd) f))}
       \<and> distinct (listed t)"
  proof (rule Cons.IH [OF loop inv _ dstep])
    show "\<forall>g \<in> insert f G. prefix pd g" using Cons.prems(3) pf by simp
    show "sorted_wrt (\<lambda>g f. \<not> strict_prefix g f) files" using Cons.prems(5) by simp
    show "\<forall>g \<in> insert f G. \<forall>h \<in> set files. \<not> strict_prefix g h"
      using Cons.prems(5,6) by auto
  qed
  with step releq show ?case by auto
qed

lemma build_tree_listed:
  assumes "build_tree_structure files pd = Inr t"
    and "sorted_wrt (\<lambda>g f. \<not> strict_prefix g f) files"
  shows "set (listed t) = {ps. ps \<noteq> [] \<and> (\<exists>f \<in> set files. prefix ps (drop (length pd) f))}"
    and "distinct (listed t)"
proof -
  have "set (listed t) = set (listed [])
           \<union> {ps. ps \<noteq> [] \<and> (\<exists>f \<in> set files. prefix ps (drop (length pd) f))}
       \<and> distinct (listed t)"
  proof (rule build_tree_loop_listed [where G = "{}"])
    show "build_tree_loop files pd [] = Inr t"
      using assms(1) by (simp add: build_tree_structure_def)
    show "built_from [] (drop (length pd) ` {})" by (rule built_from_empty)
  qed (use assms in simp_all)
  then show "set (listed t) = {ps. ps \<noteq> [] \<and> (\<exists>f \<in> set files. prefix ps (drop (length pd) f))}"
    and "distinct (listed t)" by simp_all
qed

lemma print_tree_truncates:
  assumes "m < length kids" and "0 < m"
  shows "print_tree [(name, TNode False kids)] pfx m =
           Inr (Entry pfx last_connector False name
                # map (\<lambda>(child_name, child_data).
                         Entry (pfx @ last_extension) mid_connector (is_file child_data) child_name)
                      (take m kids)
                @ [Ellipsis (pfx @ last_extension), UpTo (pfx @ last_extension) (length kids)])"
proof -
  from assms have "take m kids \<noteq> []" by auto
  then show ?thesis
    using assms
    by (subst print_tree.simps) (simp add: sort_items_def truncated_lines_def Let_def)
qed

text \<open>
  A resolved module file is the project directory, then parts without a dot, then a last
  part with a dot; so no resolved file lies below another one.
\<close>

lemma split_on_chars: "w \<in> set (split_on c s) \<Longrightarrow> set w \<subseteq> set s"
proof (induction s arbitrary: w)
  case Nil
  then show ?case by simp
next
  case step: (Cons x s)
  show ?case
  proof (cases "split_on c s")
    case Nil
    with step show ?thesis by (auto split: if_splits)
  next
    case (Cons a list)
    have "set a \<subseteq> set s" using step.IH [of a] Cons by simp
    moreover have "\<And>v. v \<in> set list \<Longrightarrow> set v \<subseteq> set s" using step.IH Cons by simp
    ultimately show ?thesis using step.prems Cons
      by (auto split: if_splits)
  qed
qed

lemma split_on_tail:
  "c \<notin> set ys \<Longrightarrow>
   split_on c (xs @ ys) = butlast (split_on c xs) @ [last (split_on c xs) @ ys]"
proof (induction xs)
  case Nil
  then show ?case by (simp add: split_on_absent)
next
  case (Cons x xs)
  obtain w ws where s: "split_on c xs = w # ws"
    using split_on_nonempty [of c xs] by (cases "split_on c xs") auto
  show ?case
  proof (cases "x = c")
    case True
    with Cons s show ?thesis by simp
  next
    case False
    with Cons s show ?thesis by (cases ws) simp_all
  qed
qed

lemma replace_dots_no_dot: "CHR ''.'' \<notin> set (replace_dots m)"
  by (auto simp: replace_dots_def)

lemma rel_parts_chars: "w \<in> set (rel_parts s) \<Longrightarrow> set w \<subseteq> set s"
  by (auto simp: rel_parts_def dest: split_on_chars)

lemma rel_parts_py:
  "\<exists>r. rel_parts (p @ ''.py'') = r @ [last (split_on CHR ''/'' p) @ ''.py'']
       \<and> (\<forall>w \<in> set r. set w \<subseteq> set p)"
proof -
  have "CHR ''/'' \<notin> set ''.py''" by simp
  from split_on_tail [OF this, of p]
  have "rel_parts (p @ ''.py'')
        = filter (\<lambda>w. w \<noteq> [] \<and> w \<noteq> ''.'') (butlast (split_on CHR ''/'' p))
          @ [last (split_on CHR ''/'' p) @ ''.py'']"
    by (simp add: rel_parts_def)
  moreover have "\<forall>w \<in> set (filter (\<lambda>w. w \<noteq> [] \<and> w \<noteq> ''.'') (butlast (split_on CHR ''/'' p))).
                   set w \<subseteq> set p"
    by (auto dest!: in_set_butlastD split_on_chars)
  ultimately show ?thesis by blast
qed

lemma resolved_shape:
  assumes "resolve_import_to_file fs m pd = Some g"
  shows "\<exists>r n. g = pd @ r @ [n] \<and> CHR ''.'' \<in> set n \<and> (\<forall>w \<in> set r. CHR ''.'' \<notin> set w)"
proof -
  let ?p = "replace_dots m"
  from assms have "g = path_join pd (?p @ ''.py'')
                   \<or> g = path_join (path_join pd ?p) ''__init__.py''"
    by (auto simp: resolve_import_to_file_def Let_def split: if_splits)
  then show ?thesis
  proof
    assume g: "g = path_join pd (?p @ ''.py'')"
    from rel_parts_py [of ?p] obtain r where
      r: "rel_parts (?p @ ''.py'') = r @ [last (split_on CHR ''/'' ?p) @ ''.py'']"
      and chars: "\<forall>w \<in> set r. set w \<subseteq> set ?p" by blast
    have "\<forall>w \<in> set r. CHR ''.'' \<notin> set w"
      using chars replace_dots_no_dot [of m] by blast
    moreover have "g = pd @ r @ [last (split_on CHR ''/'' ?p) @ ''.py'']"
      using g r by (simp add: path_join_def)
    moreover have "CHR ''.'' \<in> set (last (split_on CHR ''/'' ?p) @ ''.py'')" by simp
    ultimately show ?thesis by blast
  next
    assume g: "g = path_join (path_join pd ?p) ''__init__.py''"
    have i: "rel_parts ''__init__.py'' = [''__init__.py'']" by (simp add: rel_parts_def)
    have "\<forall>w \<in> set (rel_parts ?p). CHR ''.'' \<notin> set w"
      using replace_dots_no_dot [of m] by (auto dest: rel_parts_chars)
    moreover have "g = pd @ rel_parts ?p @ [''__init__.py'']"
      using g i by (simp add: path_join_def)
    moreover have "CHR ''.'' \<in> set ''__init__.py''" by simp
    ultimately show ?thesis by blast
  qed
qed

lemma resolved_not_below:
  assumes "resolve_import_to_file fs m pd = Some g"
    and "resolve_import_to_file fs m' pd = Some f"
  shows "\<not> strict_prefix g f"
proof
  assume sp: "strict_prefix g f"
  from resolved_shape [OF assms(1)] obtain r n where g: "g = pd @ r @ [n]"
    and n: "CHR ''.'' \<in> set n" by blast
  from resolved_shape [OF assms(2)] obtain r' n' where f: "f = pd @ r' @ [n']"
    and r': "\<forall>w \<in> set r'. CHR ''.'' \<notin> set w" by blast
  from sp g f have "strict_prefix (r @ [n]) (r' @ [n'])"
    by (simp add: strict_prefix_def)
  then have "prefix (r @ [n]) r'"
    by (auto simp: strict_prefix_def prefix_snoc)
  then have "n \<in> set r'" by (auto simp: prefix_def)
  with r' n show False by blast
qed

lemma sorted_wrt_pairwise:
  "(\<And>x y. x \<in> set xs \<Longrightarrow> y \<in> set xs \<Longrightarrow> P x y) \<Longrightarrow> sorted_wrt P xs"
  by (induction xs) auto

lemma reachable_resolved:
  "g \<in> reachable fs pd ex entry \<Longrightarrow> g \<noteq> entry \<Longrightarrow>
   \<exists>m. resolve_import_to_file fs m pd = Some g"
  by (erule reachable.cases) (auto simp: import_targets_def)

lemma phase_keys:
  assumes "extraction_phase fs pd entry ex = Inr code"
  shows "map fst code = discover_files fs pd entry ex"
  using extract_loop_keys [of fs pd ex "[(entry, [''*''])]" "{}" "[]" code] assms
  by (simp add: extraction_phase_def discover_files_def)

lemma phase_entry_first:
  assumes "extraction_phase fs pd entry ex = Inr code" and "code \<noteq> []"
  shows "\<exists>c rest. code = (entry, c) # rest \<and> is_regular fs entry"
proof -
  have run: "extract_loop fs pd ex [(entry, [''*''])] {} [] = Inr code"
    using assms(1) by (simp add: extraction_phase_def)
  have ne: "\<not> should_exclude ex entry"
  proof
    assume "should_exclude ex entry"
    with run have "code = []" by (auto split: sum.splits)
    with assms(2) show False by simp
  qed
  from first_dequeue_appends [OF run _ ne] obtain c where
    c: "extract_file fs entry [''*''] = Inr c" and p: "prefix [(entry, c)] code"
    by auto
  from c have "read_file fs entry = Inr c" by (simp add: extract_file_def Let_def)
  then have "is_regular fs entry"
    by (auto simp: read_file_def is_regular_def split: option.splits fnode.splits)
  moreover from p obtain rest where "code = (entry, c) # rest" by (auto simp: prefix_def)
  ultimately show ?thesis by blast
qed

lemma phase_keys_order:
  assumes "extraction_phase fs pd entry ex = Inr code" and "fs_consistent fs"
  shows "sorted_wrt (\<lambda>g f. \<not> strict_prefix g f) (map fst code)"
proof (cases "code = []")
  case True
  then show ?thesis by simp
next
  case False
  from phase_entry_first [OF assms(1) False] obtain c rest where
    code: "code = (entry, c) # rest" and reg: "is_regular fs entry" by blast
  have keys: "set (map fst code) = reachable fs pd ex entry" "distinct (map fst code)"
    using discover_files_reachable [of fs pd entry ex] phase_keys [OF assms(1)] by simp_all
  have res: "\<exists>m. resolve_import_to_file fs m pd = Some f" if "f \<in> set (map fst rest)" for f
  proof -
    from that keys code have "f \<in> reachable fs pd ex entry" "f \<noteq> entry" by auto
    then show ?thesis by (rule reachable_resolved)
  qed
  from reg have e: "entry \<in> fst ` set fs"
    by (auto simp: is_regular_def split: option.splits dest: map_of_SomeD intro: rev_image_eqI)
  have first: "\<not> strict_prefix entry f" if "f \<in> set (map fst rest)" for f
  proof -
    from res [OF that] have "f \<in> fst ` set fs" by (auto dest: resolve_exists)
    with assms(2) e reg show ?thesis unfolding fs_consistent_def by blast
  qed
  have "sorted_wrt (\<lambda>g f. \<not> strict_prefix g f) (map fst rest)"
  proof (rule sorted_wrt_pairwise)
    fix g f assume "g \<in> set (map fst rest)" "f \<in> set (map fst rest)"
    with res obtain m m' where "resolve_import_to_file fs m pd = Some g"
      "resolve_import_to_file fs m' pd = Some f" by blast
    then show "\<not> strict_prefix g f" by (rule resolved_not_below)
  qed
  with first code show ?thesis by auto
qed

lemma phase_keys_below:
  assumes "extraction_phase fs pd entry ex = Inr code"
    and "build_tree_structure (map fst code) pd = Inr tree"
    and "\<not> is_regular fs pd"
    and "f \<in> fst ` set code"
  shows "strict_prefix pd f"
proof -
  from assms(4) have ne: "code \<noteq> []" by auto
  from phase_entry_first [OF assms(1) ne] obtain c rest where
    code: "code = (entry, c) # rest" and reg: "is_regular fs entry" by blast
  have keys: "set (map fst code) = reachable fs pd ex entry"
    using discover_files_reachable [of fs pd entry ex] phase_keys [OF assms(1)] by simp
  show ?thesis
  proof (cases "f = entry")
    case True
    from assms(2) code obtain rel where "relative_to entry pd = Inr rel"
      by (auto simp: build_tree_structure_def split: sum.splits)
    then have "prefix pd entry" by (auto simp: relative_to_def split: if_splits)
    moreover from reg assms(3) have "entry \<noteq> pd" by auto
    ultimately show ?thesis using True by (simp add: strict_prefix_def)
  next
    case False
    from assms(4) keys have "f \<in> reachable fs pd ex entry" by auto
    from reachable_resolved [OF this False] obtain m where
      "resolve_import_to_file fs m pd = Some f" by blast
    from resolved_shape [OF this] show ?thesis by (auto simp: strict_prefix_def)
  qed
qed

text \<open>
  A directory can be a key of \<^verbatim>\<open>extracted_code\<close> when it is requested by name: it is
  then listed on its directory line, above the entry file that lies in it.
\<close>

lemma directory_key_listed:
  "raised (extract_used_code dir_fs demo_dir (demo_dir @ [''x.py'', ''main.py'']) []) = None
   \<and> extraction_phase dir_fs demo_dir (demo_dir @ [''x.py'', ''main.py'']) [] =
       Inr [(demo_dir @ [''x.py'', ''main.py''], ''from x import foo'' @ nl),
            (demo_dir @ [''x.py''], [])]
   \<and> build_tree_structure [demo_dir @ [''x.py'', ''main.py''], demo_dir @ [''x.py'']] demo_dir
       = Inr [(''x.py'', TNode False [(''main.py'', TNode True [])])]
   \<and> fs_consistent dir_fs
   \<and> \<not> is_regular dir_fs demo_dir
   \<and> write_tree [(''x.py'', TNode False [(''main.py'', TNode True [])])] []
       = [Entry [] last_connector False ''x.py'',
          Entry last_extension last_connector True ''main.py'']
   \<and> take 4 (drop 3 (the (artifact (extract_used_code dir_fs demo_dir
                                      (demo_dir @ [''x.py'', ''main.py'']) []))))
       = [''Total Files: 2'' @ nl,
          ''Project Root: /proj'' @ nl @ nl,
          ''Directory Tree Structure:'' @ nl,
          folder_icon @ '' proj/'' @ nl]"
  by code_simp

text \<open>
  C10 (no truncation in the written manifest). Let a run of \<^verbatim>\<open>extract_used_code\<close>
  complete, on a file system in which nothing exists below a regular file and the project
  root is not a regular file. Then every key of \<^verbatim>\<open>extracted_code\<close> lies strictly below
  the project directory, and the lines of \<^verbatim>\<open>write_tree\<close> name, with multiplicity, the
  last parts of exactly the paths below the project directory that are an extracted path
  or lie above one: one line for every extracted file and for every directory on the way
  to one, however many entries a directory holds. The artifact holds, after the seven
  chunks of its header, one chunk for each of these lines, made of its prefix, its
  connector, the file icon and the name, or the folder icon, the name and a slash, and a
  newline; the closing rule of the header follows. \<^verbatim>\<open>print_tree\<close> alone truncates: for a
  directory with more than \<^verbatim>\<open>max_files_per_dir\<close> children it prints the first
  \<^verbatim>\<open>max_files_per_dir\<close> of them, an ellipsis and the count.
\<close>

theorem written_tree_lists_every_file:
  assumes "raised (extract_used_code fs project_dir entry_file exclude_patterns) = None"
    and "extraction_phase fs project_dir entry_file exclude_patterns = Inr extracted_code"
    and "build_tree_structure (map fst extracted_code) project_dir = Inr tree"
    and "fs_consistent fs"
    and "\<not> is_regular fs project_dir"
  shows "(\<forall>f \<in> fst ` set extracted_code. strict_prefix project_dir f)
       \<and> mset (map line_name (write_tree tree []))
           = image_mset last
               (mset_set {ps. ps \<noteq> [] \<and> (\<exists>f \<in> fst ` set extracted_code.
                                            prefix (project_dir @ ps) f)})
       \<and> (\<exists>body. artifact (extract_used_code fs project_dir entry_file exclude_patterns) =
             Some ([replicate 80 CHR ''='' @ nl,
                    ''EXTRACTED FILES SUMMARY'' @ nl,
                    replicate 80 CHR ''='' @ nl @ nl,
                    ''Total Files: '' @ show_nat (length extracted_code) @ nl,
                    ''Project Root: '' @ path_str project_dir @ nl @ nl,
                    ''Directory Tree Structure:'' @ nl,
                    folder_icon @ '' '' @ path_name project_dir @ ''/'' @ nl]
                   @ map (\<lambda>l. line_pfx l @ line_connector l
                               @ (if line_is_file l then file_icon @ '' '' @ line_name l
                                  else folder_icon @ '' '' @ line_name l @ ''/'')
                               @ nl)
                       (write_tree tree [])
                   @ (nl @ replicate 80 CHR ''='' @ nl @ nl) # body))
       \<and> (max_files_per_dir < length kids \<and> 0 < max_files_per_dir \<longrightarrow>
            print_tree [(name, TNode False kids)] pfx max_files_per_dir =
              Inr (Entry pfx last_connector False name
                   # map (\<lambda>(child_name, child_data).
                            Entry (pfx @ last_extension) mid_connector (is_file child_data)
                              child_name)
                         (take max_files_per_dir kids)
                   @ [Ellipsis (pfx @ last_extension),
                      UpTo (pfx @ last_extension) (length kids)]))"
proof -
  have below: "\<forall>f \<in> fst ` set extracted_code. strict_prefix project_dir f"
    using phase_keys_below [OF assms(2,3,5)] by blast
  have order: "sorted_wrt (\<lambda>g f. \<not> strict_prefix g f) (map fst extracted_code)"
    using assms(2,4) by (rule phase_keys_order)
  have "{ps. ps \<noteq> [] \<and> (\<exists>f \<in> set (map fst extracted_code).
                             prefix ps (drop (length project_dir) f))}
        = {ps. ps \<noteq> [] \<and> (\<exists>f \<in> fst ` set extracted_code. prefix (project_dir @ ps) f)}"
    (is "?A = ?B")
  proof -
    have "prefix ps (drop (length project_dir) f) = prefix (project_dir @ ps) f"
      if "f \<in> fst ` set extracted_code" for f ps
    proof -
      from below that obtain r where "f = project_dir @ r"
        by (auto simp: strict_prefix_def prefix_def)
      then show ?thesis by simp
    qed
    then show ?thesis by auto
  qed
  with build_tree_listed [OF assms(3) order]
  have nodes: "set (listed tree)
               = {ps. ps \<noteq> [] \<and> (\<exists>f \<in> fst ` set extracted_code. prefix (project_dir @ ps) f)}"
    and dist: "distinct (listed tree)" by simp_all
  have "mset (map line_name (write_tree tree [])) = image_mset last (mset (listed tree))"
    using write_tree_names [of tree "[]"] by simp
  also have "mset (listed tree) = mset_set (set (listed tree))"
    using dist by (simp add: mset_set_set)
  finally have names: "mset (map line_name (write_tree tree []))
           = image_mset last
               (mset_set {ps. ps \<noteq> [] \<and> (\<exists>f \<in> fst ` set extracted_code.
                                            prefix (project_dir @ ps) f)})"
    unfolding nodes .
  obtain chunks err where w: "write_code project_dir extracted_code = (chunks, err)"
    by (cases "write_code project_dir extracted_code")
  have "artifact (extract_used_code fs project_dir entry_file exclude_patterns) =
               Some (write_header project_dir (length extracted_code) tree @ chunks)"
    using assms(1-3) w
    by (auto simp: extract_used_code_def Let_def aborted_def split: sum.splits)
  then have written: "\<exists>body. artifact (extract_used_code fs project_dir entry_file exclude_patterns) =
             Some ([replicate 80 CHR ''='' @ nl,
                    ''EXTRACTED FILES SUMMARY'' @ nl,
                    replicate 80 CHR ''='' @ nl @ nl,
                    ''Total Files: '' @ show_nat (length extracted_code) @ nl,
                    ''Project Root: '' @ path_str project_dir @ nl @ nl,
                    ''Directory Tree Structure:'' @ nl,
                    folder_icon @ '' '' @ path_name project_dir @ ''/'' @ nl]
                   @ map (\<lambda>l. line_pfx l @ line_connector l
                               @ (if line_is_file l then file_icon @ '' '' @ line_name l
                                  else folder_icon @ '' '' @ line_name l @ ''/'')
                               @ nl)
                       (write_tree tree [])
                   @ (nl @ replicate 80 CHR ''='' @ nl @ nl) # body)"
    by (simp add: write_header_def render_entries)
  have trunc: "max_files_per_dir < length kids \<and> 0 < max_files_per_dir \<longrightarrow>
            print_tree [(name, TNode False kids)] pfx max_files_per_dir =
              Inr (Entry pfx last_connector False name
                   # map (\<lambda>(child_name, child_data).
                            Entry (pfx @ last_extension) mid_connector (is_file child_data)
                              child_name)
                         (take max_files_per_dir kids)
                   @ [Ellipsis (pfx @ last_extension),
                      UpTo (pfx @ last_extension) (length kids)])"
    using print_tree_truncates [of max_files_per_dir kids name pfx] by blast
  from below names written trunc show ?thesis by blast
qed

theorem written_tree_lists_every_file_witness:
  "raised (extract_used_code wide_fs demo_dir (demo_dir @ [''pkg'', ''m1.py'']) []) = None
   \<and> extraction_phase wide_fs demo_dir (demo_dir @ [''pkg'', ''m1.py'']) [] = Inr wide_code
   \<and> build_tree_structure (map fst wide_code) demo_dir = Inr wide_tree
   \<and> fs_consistent wide_fs
   \<and> \<not> is_regular wide_fs demo_dir
   \<and> length wide_code = 9
   \<and> mset (map line_name (write_tree wide_tree []))
       = image_mset last
           (mset_set {ps. ps \<noteq> [] \<and> (\<exists>f \<in> fst ` set wide_code. prefix (demo_dir @ ps) f)})
   \<and> map line_name (write_tree wide_tree []) = ''pkg'' # wide_names
   \<and> take 10 (drop 7 (the (artifact (extract_used_code wide_fs demo_dir
                                       (demo_dir @ [''pkg'', ''m1.py'']) []))))
       = (last_connector @ folder_icon @ '' pkg/'' @ nl)
         # map (\<lambda>n. last_extension @ mid_connector @ file_icon @ '' '' @ n @ nl)
             (butlast wide_names)
         @ [last_extension @ last_connector @ file_icon @ '' m9.py'' @ nl]
   \<and> print_tree wide_tree [] 8 =
       Inr (Entry [] last_connector False ''pkg''
            # map (\<lambda>n. Entry last_extension mid_connector True n)
                [''m1.py'', ''m2.py'', ''m3.py'', ''m4.py'', ''m5.py'', ''m6.py'', ''m7.py'',
                 ''m8.py'']
            @ [Ellipsis last_extension, UpTo last_extension 9])"
proof -
  have completes: "raised (extract_used_code wide_fs demo_dir (demo_dir @ [''pkg'', ''m1.py'']) [])
                   = None"
    by code_simp
  have phase: "extraction_phase wide_fs demo_dir (demo_dir @ [''pkg'', ''m1.py'']) []
               = Inr wide_code"
    by code_simp
  have built: "build_tree_structure (map fst wide_code) demo_dir = Inr wide_tree"
    by code_simp
  have real: "fs_consistent wide_fs" by code_simp
  have root: "\<not> is_regular wide_fs demo_dir" by code_simp
  have n: "length wide_code = 9" by code_simp
  have names: "map line_name (write_tree wide_tree []) = ''pkg'' # wide_names" by code_simp
  have lines: "take 10 (drop 7 (the (artifact (extract_used_code wide_fs demo_dir
                                       (demo_dir @ [''pkg'', ''m1.py'']) []))))
       = (last_connector @ folder_icon @ '' pkg/'' @ nl)
         # map (\<lambda>n. last_extension @ mid_connector @ file_icon @ '' '' @ n @ nl)
             (butlast wide_names)
         @ [last_extension @ last_connector @ file_icon @ '' m9.py'' @ nl]"
    by code_simp
  have pr: "print_tree wide_tree [] 8 =
       Inr (Entry [] last_connector False ''pkg''
            # map (\<lambda>n. Entry last_extension mid_connector True n)
                [''m1.py'', ''m2.py'', ''m3.py'', ''m4.py'', ''m5.py'', ''m6.py'', ''m7.py'',
                 ''m8.py'']
            @ [Ellipsis last_extension, UpTo last_extension 9])"
    by code_simp
  from written_tree_lists_every_file [OF completes phase built real root]
  have "mset (map line_name (write_tree wide_tree []))
       = image_mset last
           (mset_set {ps. ps \<noteq> [] \<and> (\<exists>f \<in> fst ` set wide_code. prefix (demo_dir @ ps) f)})"
    by blast
  with completes phase built real root n names lines pr show ?thesis by blast
qed

end
